theory Spec2Isabelle
  imports Main "HOL-Library.Word"
begin

section \<open>The message frame of common.hpp\<close>

text \<open>
  \<^verbatim>\<open>struct Message\<close> holds a fixed array \<^verbatim>\<open>char data[HEADER_SIZE + MAX_BODY_SIZE]\<close> and a
  \<^verbatim>\<open>size_t body_length\<close>. The array is a list of bytes (whose length is 516 in every
  well-formed value), \<^verbatim>\<open>size_t\<close> is a 64-bit word and \<^verbatim>\<open>int\<close> a 32-bit one (LP64).
\<close>

definition HEADER_SIZE :: nat where
  "HEADER_SIZE = 4"

definition MAX_BODY_SIZE :: nat where
  "MAX_BODY_SIZE = 512"

record Message =
  data :: string
  body_length :: "64 word"

definition wf_Message :: "Message \<Rightarrow> bool" where
  "wf_Message m \<longleftrightarrow> length (data m) = HEADER_SIZE + MAX_BODY_SIZE"

text \<open>\<^verbatim>\<open>body()\<close> is the pointer \<^verbatim>\<open>data + HEADER_SIZE\<close>: the bytes from offset 4 on.\<close>

definition body :: "Message \<Rightarrow> string" where
  "body m = drop HEADER_SIZE (data m)"

text \<open>\<^verbatim>\<open>length()\<close>, computed in \<^verbatim>\<open>size_t\<close>.\<close>

definition length_msg :: "Message \<Rightarrow> 64 word" where
  "length_msg m = word_of_nat HEADER_SIZE + body_length m"

text \<open>
  The bytes that go on the wire for a message: \<^verbatim>\<open>do_write\<close> sends
  \<^verbatim>\<open>boost::asio::buffer(msg.data, msg.length())\<close>.
\<close>

definition frame :: "Message \<Rightarrow> string" where
  "frame m = take (unat (length_msg m)) (data m)"

text \<open>\<^verbatim>\<open>std::string(msg.body(), msg.body_length)\<close>, the body as its readers take it.\<close>

definition body_string :: "Message \<Rightarrow> string" where
  "body_string m = take (unat (body_length m)) (body m)"

subsection \<open>The C library functions the codec calls\<close>

text \<open>
  \<^verbatim>\<open>memcpy(dst + off, src, n)\<close> on an array held as a list: \<open>n\<close> bytes of \<open>src\<close> replace
  the bytes of \<open>dst\<close> from offset \<open>off\<close> on.
\<close>

definition memcpy :: "string \<Rightarrow> nat \<Rightarrow> string \<Rightarrow> nat \<Rightarrow> string" where
  "memcpy dst off src n = take off dst @ take n src @ drop (off + n) dst"

text \<open>
  \<^verbatim>\<open>strncat(header, src, n)\<close> onto an empty string: at most \<open>n\<close> bytes of \<open>src\<close>, stopping
  before the first NUL.
\<close>

definition strncat :: "string \<Rightarrow> nat \<Rightarrow> string" where
  "strncat src n = takeWhile (\<lambda>c. c \<noteq> CHR 0x00) (take n src)"

text \<open>\<^verbatim>\<open>isspace\<close> and \<^verbatim>\<open>isdigit\<close> in the C locale.\<close>

definition isspace :: "char \<Rightarrow> bool" where
  "isspace c \<longleftrightarrow> c = CHR '' '' \<or> ((9::nat) \<le> of_char c \<and> of_char c \<le> (13::nat))"

definition isdigit :: "char \<Rightarrow> bool" where
  "isdigit c \<longleftrightarrow> (48::nat) \<le> of_char c \<and> of_char c \<le> (57::nat)"

text \<open>
  \<^verbatim>\<open>atoi\<close>: skip leading white space, take an optional sign, then accumulate the longest
  run of digits; with no digit the result is 0. A header has at most four bytes, so the
  value stays far inside \<^verbatim>\<open>int\<close> and the mathematical integer is the C result.
\<close>

fun atoi_digits :: "int \<Rightarrow> string \<Rightarrow> int" where
  "atoi_digits acc [] = acc"
| "atoi_digits acc (c # cs) =
     (if isdigit c then atoi_digits (10 * acc + (of_char c - 48)) cs else acc)"

definition atoi :: "string \<Rightarrow> int" where
  "atoi s =
     (case dropWhile isspace s of
        [] \<Rightarrow> 0
      | c # cs \<Rightarrow>
          if c = CHR ''-'' then - atoi_digits 0 cs
          else if c = CHR ''+'' then atoi_digits 0 cs
          else atoi_digits 0 (c # cs))"

text \<open>
  \<^verbatim>\<open>sprintf(header, "%4d", i)\<close>: the decimal digits of \<open>i\<close>, a minus sign before them when
  \<open>i\<close> is negative, padded with spaces on the left to four characters (never cut).
\<close>

definition digit_char :: "nat \<Rightarrow> char" where
  "digit_char d = char_of (of_char CHR ''0'' + d)"

fun utoa :: "nat \<Rightarrow> string" where
  "utoa n = (if 10 \<le> n then utoa (n div 10) @ [digit_char (n mod 10)] else [digit_char n])"

declare utoa.simps [simp del]

definition itoa :: "int \<Rightarrow> string" where
  "itoa i = (if i < 0 then CHR ''-'' # utoa (nat (- i)) else utoa (nat i))"

definition sprintf_4d :: "int \<Rightarrow> string" where
  "sprintf_4d i = replicate (4 - length (itoa i)) CHR '' '' @ itoa i"

subsection \<open>encode\_header and decode\_header\<close>

text \<open>
  \<^verbatim>\<open>encode_header\<close> prints \<^verbatim>\<open>static_cast<int>(body_length)\<close> into a buffer of
  \<^verbatim>\<open>HEADER_SIZE + 1\<close> bytes and copies its first four bytes to the front of \<open>data\<close>.
  When the text has more than four characters \<^verbatim>\<open>sprintf\<close> writes past the buffer;
  that undefined behaviour is the result \<open>None\<close>.
\<close>

definition encode_header :: "Message \<Rightarrow> Message option" where
  "encode_header m =
     (let header = sprintf_4d (sint (ucast (body_length m) :: 32 word))
      in if HEADER_SIZE < length header then None
         else Some (m\<lparr>data := memcpy (data m) 0 header HEADER_SIZE\<rparr>))"

text \<open>
  \<^verbatim>\<open>decode_header\<close> stores \<^verbatim>\<open>atoi\<close> of the first four bytes, converted to \<^verbatim>\<open>size_t\<close>,
  in \<open>body_length\<close> and returns whether it is at most \<^verbatim>\<open>MAX_BODY_SIZE\<close>. The result is the
  returned flag and the message afterwards.
\<close>

definition decode_header :: "Message \<Rightarrow> bool \<times> Message" where
  "decode_header m =
     (let header = strncat (data m) HEADER_SIZE;
          m' = m\<lparr>body_length := word_of_int (atoi header)\<rparr>
      in (body_length m' \<le> word_of_nat MAX_BODY_SIZE, m'))"

subsection \<open>Building a frame from a text\<close>

text \<open>
  \<^verbatim>\<open>Message msg;\<close> leaves the array indeterminate (its contents are the argument)
  and sets \<open>body_length\<close> to 0.
\<close>

definition Message_new :: "string \<Rightarrow> Message" where
  "Message_new uninit = \<lparr>data = uninit, body_length = 0\<rparr>"

text \<open>
  Both the client's input loop and the server's \<^verbatim>\<open>do_read_body\<close> build a frame in the
  same four statements: a fresh \<^verbatim>\<open>Message\<close>, \<^verbatim>\<open>body_length = min(text.size(), MAX_BODY_SIZE)\<close>,
  \<^verbatim>\<open>memcpy(msg.body(), text.c_str(), msg.body_length)\<close>, \<^verbatim>\<open>encode_header()\<close>.
\<close>

definition compose_message :: "string \<Rightarrow> string \<Rightarrow> Message option" where
  "compose_message uninit line =
     (let msg = Message_new uninit;
          msg = msg\<lparr>body_length := word_of_nat (min (length line) MAX_BODY_SIZE)\<rparr>;
          msg = msg\<lparr>data := memcpy (data msg) HEADER_SIZE line (unat (body_length msg))\<rparr>
      in encode_header msg)"

subsection \<open>What the specification calls a header\<close>

text \<open>
  The specification's words for a header, independent of \<^verbatim>\<open>sprintf\<close> and \<^verbatim>\<open>atoi\<close>:
  four bytes, spaces first and then at least one decimal digit and nothing else, the
  digits read as a number in base ten (\<open>padded_decimal\<close>); right-justified without
  sign or leading zero when, moreover, the digits are the shortest for their value
  (\<open>right_justified_decimal\<close>).
\<close>

definition decimal_value :: "string \<Rightarrow> nat" where
  "decimal_value ds = foldl (\<lambda>a c. 10 * a + (of_char c - 48)) 0 ds"

definition padded_decimal :: "string \<Rightarrow> nat \<Rightarrow> bool" where
  "padded_decimal h n \<longleftrightarrow>
     length h = 4 \<and>
     (let ds = dropWhile (\<lambda>c. c = CHR '' '') h
      in ds \<noteq> [] \<and> list_all isdigit ds \<and> decimal_value ds = n)"

definition right_justified_decimal :: "string \<Rightarrow> nat \<Rightarrow> bool" where
  "right_justified_decimal h n \<longleftrightarrow>
     padded_decimal h n \<and>
     (let ds = dropWhile (\<lambda>c. c = CHR '' '') h in ds = ''0'' \<or> hd ds \<noteq> CHR ''0'')"

section \<open>The chat room and its sessions (server.cpp)\<close>

text \<open>
  \<^verbatim>\<open>ChatRoom\<close> holds a \<^verbatim>\<open>std::set\<close> of shared pointers to participants and a
  \<^verbatim>\<open>std::queue<Message>\<close> of recent messages; a \<^verbatim>\<open>ChatSession\<close> holds the message being
  read, the queue of messages to write and the atomic flag \<^verbatim>\<open>writing_\<close>. A participant is
  named by a natural number that stands for the identity of its shared pointer, and the
  session objects are the values of \<open>sessions\<close> at these numbers. The set is the list of
  its elements in the order the container iterates them, the queue is a list whose head is
  the front. Of the socket the model keeps the operations started on it: \<open>awaiting\<close> is the
  read that has been started and not completed, \<open>written\<close> lists the messages handed to
  \<^verbatim>\<open>async_write\<close>, oldest first.

  In this part every completion handler runs from start to end without another one in
  between; the interleaving of \<^verbatim>\<open>deliver\<close> and \<^verbatim>\<open>do_write\<close> on several threads is the
  subject of the last part.
\<close>

definition MAX_RECENT_MSGS :: nat where
  "MAX_RECENT_MSGS = 100"

datatype async_read = Header | Body

record ChatSession =
  read_msg :: Message
  write_msgs :: "Message list"
  writing :: bool
  awaiting :: "async_read option"
  written :: "Message list"

record ChatServer =
  participants :: "nat list"
  recent_messages :: "Message list"
  sessions :: "nat \<Rightarrow> ChatSession"

text \<open>
  The constructor: \<^verbatim>\<open>read_msg_\<close> is a fresh \<^verbatim>\<open>Message\<close>, the queue is empty, the flag
  is \<^verbatim>\<open>false\<close>.
\<close>

definition ChatSession_new :: "string \<Rightarrow> ChatSession" where
  "ChatSession_new uninit =
     \<lparr>read_msg = Message_new uninit, write_msgs = [], writing = False,
      awaiting = None, written = []\<rparr>"

text \<open>
  \<^verbatim>\<open>do_write\<close> up to the call of \<^verbatim>\<open>async_write\<close>: with an empty queue it clears the
  flag and returns, otherwise it takes the front message and starts writing it. What the
  completion handler does is \<open>on_write\<close> below.
\<close>

definition do_write :: "ChatSession \<Rightarrow> ChatSession" where
  "do_write s =
     (case write_msgs s of
        [] \<Rightarrow> s\<lparr>writing := False\<rparr>
      | msg # rest \<Rightarrow> s\<lparr>write_msgs := rest, written := written s @ [msg]\<rparr>)"

text \<open>
  \<^verbatim>\<open>ChatSession::deliver\<close>: exchange the flag with \<^verbatim>\<open>true\<close>, push the message, and call
  \<^verbatim>\<open>do_write\<close> when the flag was clear.
\<close>

definition ChatSession_deliver :: "Message \<Rightarrow> ChatSession \<Rightarrow> ChatSession" where
  "ChatSession_deliver msg s =
     (let write_in_progress = writing s;
          s = s\<lparr>writing := True\<rparr>;
          s = s\<lparr>write_msgs := write_msgs s @ [msg]\<rparr>
      in if \<not> write_in_progress then do_write s else s)"

text \<open>
  \<^verbatim>\<open>participant->deliver(msg)\<close> through the shared pointer: the only implementation of
  \<^verbatim>\<open>ChatParticipant\<close> is \<^verbatim>\<open>ChatSession\<close>, and the call changes that session object only.
\<close>

definition participant_deliver :: "nat \<Rightarrow> Message \<Rightarrow> ChatServer \<Rightarrow> ChatServer" where
  "participant_deliver p msg sv =
     sv\<lparr>sessions := (sessions sv)(p := ChatSession_deliver msg (sessions sv p))\<rparr>"

text \<open>
  \<^verbatim>\<open>std::set::insert\<close> and \<^verbatim>\<open>std::set::erase\<close> by key: inserting a present key and
  erasing an absent one change nothing.
\<close>

definition set_insert :: "nat \<Rightarrow> nat list \<Rightarrow> nat list" where
  "set_insert p ps = (if p \<in> set ps then ps else insort p ps)"

definition set_erase :: "nat \<Rightarrow> nat list \<Rightarrow> nat list" where
  "set_erase p ps = removeAll p ps"

text \<open>
  \<^verbatim>\<open>ChatRoom::join\<close>: insert the participant, then hand it the messages of a copy of the
  queue. The source writes the replay as a range-for over the copied \<^verbatim>\<open>std::queue\<close>, a
  container that has neither \<^verbatim>\<open>begin\<close> nor \<^verbatim>\<open>end\<close>: the statement is ill-formed, and the
  source fixes neither which messages the loop visits nor in which order. The sequence
  visited is therefore the parameter \<open>visit\<close>, a function of the copied queue, and every
  property below holds whatever it is. What the source does fix is kept: the participant
  is inserted first, each visited message goes to \<^verbatim>\<open>participant->deliver\<close> of the joining
  participant only, and the queue itself is not changed, since the loop works on a copy.
\<close>

definition ChatRoom_join ::
    "(Message list \<Rightarrow> Message list) \<Rightarrow> nat \<Rightarrow> ChatServer \<Rightarrow> ChatServer" where
  "ChatRoom_join visit participant sv =
     (let sv = sv\<lparr>participants := set_insert participant (participants sv)\<rparr>
      in fold (\<lambda>msg. participant_deliver participant msg) (visit (recent_messages sv)) sv)"

text \<open>
  \<^verbatim>\<open>ChatRoom::leave\<close>: erase the participant from the set.
\<close>

definition ChatRoom_leave :: "nat \<Rightarrow> ChatServer \<Rightarrow> ChatServer" where
  "ChatRoom_leave participant sv =
     sv\<lparr>participants := set_erase participant (participants sv)\<rparr>"

text \<open>
  \<^verbatim>\<open>ChatRoom::deliver\<close>: push the message, pop from the front while the queue holds more
  than \<^verbatim>\<open>MAX_RECENT_MSGS\<close> messages (\<open>pop_excess\<close> is that loop), then hand the message to
  every participant in the order of the set.
\<close>

function pop_excess :: "Message list \<Rightarrow> Message list" where
  "pop_excess q = (if MAX_RECENT_MSGS < length q then pop_excess (tl q) else q)"
  by pat_completeness auto
termination
  by (relation "measure length") auto

declare pop_excess.simps [simp del]

definition ChatRoom_deliver :: "Message \<Rightarrow> ChatServer \<Rightarrow> ChatServer" where
  "ChatRoom_deliver msg sv =
     (let sv = sv\<lparr>recent_messages := pop_excess (recent_messages sv @ [msg])\<rparr>
      in fold (\<lambda>participant. participant_deliver participant msg) (participants sv) sv)"

text \<open>
  The completion handlers. Each is the lambda passed to the asynchronous operation,
  applied to the session \<open>self\<close> with the error code \<open>ec\<close> (\<open>True\<close> for an error). A read
  that completes without error has filled its buffer with the bytes received:
  \<open>received off bytes n\<close> stores \<open>n\<close> bytes at offset \<open>off\<close> of \<^verbatim>\<open>read_msg_.data\<close>.
\<close>

definition session_update :: "nat \<Rightarrow> (ChatSession \<Rightarrow> ChatSession) \<Rightarrow> ChatServer \<Rightarrow> ChatServer" where
  "session_update p f sv = sv\<lparr>sessions := (sessions sv)(p := f (sessions sv p))\<rparr>"

definition do_read_header :: "ChatSession \<Rightarrow> ChatSession" where
  "do_read_header s = s\<lparr>awaiting := Some Header\<rparr>"

definition do_read_body :: "ChatSession \<Rightarrow> ChatSession" where
  "do_read_body s = s\<lparr>awaiting := Some Body\<rparr>"

definition received :: "nat \<Rightarrow> string \<Rightarrow> nat \<Rightarrow> ChatSession \<Rightarrow> ChatSession" where
  "received off bytes n s =
     s\<lparr>read_msg := (read_msg s)\<lparr>data := memcpy (data (read_msg s)) off bytes n\<rparr>,
       awaiting := None\<rparr>"

text \<open>
  The handler of \<^verbatim>\<open>do_read_header\<close>: without error and with \<^verbatim>\<open>decode_header()\<close> returning
  true it starts reading the body, otherwise the session leaves the room and starts no
  further read. \<^verbatim>\<open>decode_header\<close> is not called after an error.
\<close>

definition on_read_header :: "nat \<Rightarrow> bool \<Rightarrow> string \<Rightarrow> ChatServer \<Rightarrow> ChatServer" where
  "on_read_header self ec bytes sv =
     (if ec then ChatRoom_leave self (session_update self (\<lambda>s. s\<lparr>awaiting := None\<rparr>) sv)
      else
        let sv = session_update self (received 0 bytes HEADER_SIZE) sv;
            (ok, m) = decode_header (read_msg (sessions sv self));
            sv = session_update self (\<lambda>s. s\<lparr>read_msg := m\<rparr>) sv
        in if ok then session_update self do_read_body sv else ChatRoom_leave self sv)"

text \<open>
  The handler of \<^verbatim>\<open>do_read_body\<close>. \<open>ctime_now\<close> is the string \<^verbatim>\<open>std::ctime\<close> returns, whose
  last character \<^verbatim>\<open>pop_back\<close> removes; \<open>uninit\<close> is the indeterminate content of the array
  of the local \<^verbatim>\<open>Message response\<close>. The result is \<open>None\<close> where \<^verbatim>\<open>encode_header\<close> has
  undefined behaviour.
\<close>

definition on_read_body ::
    "nat \<Rightarrow> bool \<Rightarrow> string \<Rightarrow> string \<Rightarrow> string \<Rightarrow> ChatServer \<Rightarrow> ChatServer option" where
  "on_read_body self ec bytes ctime_now uninit sv =
     (if ec then Some (ChatRoom_leave self (session_update self (\<lambda>s. s\<lparr>awaiting := None\<rparr>) sv))
      else
        let n = unat (body_length (read_msg (sessions sv self)));
            sv = session_update self (received HEADER_SIZE bytes n) sv;
            timestamp = butlast ctime_now;
            formatted_msg = ''['' @ timestamp @ ''] Client: '' @ body_string (read_msg (sessions sv self))
        in case compose_message uninit formatted_msg of
             None \<Rightarrow> None
           | Some response \<Rightarrow>
               Some (session_update self do_read_header (ChatRoom_deliver response sv)))"

text \<open>
  The handler of the \<^verbatim>\<open>async_write\<close> in \<^verbatim>\<open>do_write\<close>: without error it calls
  \<^verbatim>\<open>do_write\<close> again, with an error the session leaves the room and clears the flag.
\<close>

definition on_write :: "nat \<Rightarrow> bool \<Rightarrow> ChatServer \<Rightarrow> ChatServer" where
  "on_write self ec sv =
     (if \<not> ec then session_update self do_write sv
      else session_update self (\<lambda>s. s\<lparr>writing := False\<rparr>) (ChatRoom_leave self sv))"

text \<open>
  \<^verbatim>\<open>ChatSession::start\<close>, and the handler of \<^verbatim>\<open>async_accept\<close>, which makes a session object
  at a new handle and starts it; both pass on the parameter of \<^verbatim>\<open>join\<close>.
\<close>

definition start ::
    "(Message list \<Rightarrow> Message list) \<Rightarrow> nat \<Rightarrow> ChatServer \<Rightarrow> ChatServer" where
  "start visit self sv = session_update self do_read_header (ChatRoom_join visit self sv)"

definition on_accept ::
    "(Message list \<Rightarrow> Message list) \<Rightarrow> nat \<Rightarrow> bool \<Rightarrow> string \<Rightarrow> ChatServer \<Rightarrow> ChatServer" where
  "on_accept visit new ec uninit sv =
     (if \<not> ec
      then start visit new (sv\<lparr>sessions := (sessions sv)(new := ChatSession_new uninit)\<rparr>)
      else sv)"

text \<open>
  The room of a new \<^verbatim>\<open>ChatServer\<close>: no participant, no recent message.
\<close>

definition ChatServer_new :: "(nat \<Rightarrow> ChatSession) \<Rightarrow> ChatServer" where
  "ChatServer_new heap = \<lparr>participants = [], recent_messages = [], sessions = heap\<rparr>"

subsection \<open>Sequences of calls on the room\<close>

text \<open>
  The room is changed by \<^verbatim>\<open>join\<close>, \<^verbatim>\<open>leave\<close> and \<^verbatim>\<open>deliver\<close> only, and a session's
  outbound queue moreover by the completion of its writes. A history of the server, as far
  as room and outbound queues go, is a list of such calls; \<open>delivered\<close> lists the messages
  of its \<^verbatim>\<open>deliver\<close> calls in order. \<open>visit\<close> is the parameter of \<^verbatim>\<open>join\<close>.
\<close>

datatype call = Join nat | Leave nat | Deliver Message | WriteDone nat bool

fun apply_call ::
    "(Message list \<Rightarrow> Message list) \<Rightarrow> call \<Rightarrow> ChatServer \<Rightarrow> ChatServer" where
  "apply_call visit (Join p) sv = ChatRoom_join visit p sv"
| "apply_call visit (Leave p) sv = ChatRoom_leave p sv"
| "apply_call visit (Deliver msg) sv = ChatRoom_deliver msg sv"
| "apply_call visit (WriteDone p ec) sv = on_write p ec sv"

fun delivered :: "call list \<Rightarrow> Message list" where
  "delivered [] = []"
| "delivered (Deliver msg # cs) = msg # delivered cs"
| "delivered (_ # cs) = delivered cs"

section \<open>The outbound queue under interleaving\<close>

text \<open>
  \<^verbatim>\<open>ChatSession::deliver\<close> runs on whichever thread calls it, and the handler of a write
  on any thread of the pool. The atomic flag has sequentially consistent operations and
  the queue is touched under \<^verbatim>\<open>write_mutex_\<close> only, so an execution is an interleaving of
  these steps, each of them atomic:
  \<^item> \<^verbatim>\<open>writing_.exchange(true)\<close> at the start of \<^verbatim>\<open>deliver\<close> (\<open>Call\<close>);
  \<^item> the locked block of \<^verbatim>\<open>deliver\<close> that pushes the message (from \<open>Exchanged\<close>);
  \<^item> the test \<^verbatim>\<open>if (!write_in_progress)\<close>, which calls \<^verbatim>\<open>do_write\<close> or returns (from
    \<open>Pushed\<close>);
  \<^item> the locked block of \<^verbatim>\<open>do_write\<close>, which clears the flag on an empty queue and
    otherwise pops the front message (from \<open>DoWrite\<close>);
  \<^item> the call of \<^verbatim>\<open>async_write\<close> with that message (from \<open>Popped\<close>);
  \<^item> the completion of a write that is in flight (\<open>Completed\<close>), whose handler calls
    \<^verbatim>\<open>do_write\<close> or, on an error, \<^verbatim>\<open>room_.leave\<close> and then clears the flag (from
    \<open>Failed\<close>).
  A thread is the point its invocation has reached; \<open>in_flight\<close> counts the writes that
  have been started and whose handler has not yet run. Any number of threads may be inside
  \<^verbatim>\<open>deliver\<close> at once, which is more than the room's mutex allows.
\<close>

datatype pc =
    Exchanged Message bool
  | Pushed bool
  | DoWrite
  | Popped Message
  | Failed
  | Done

record ConcurrentSession = ChatSession +
  in_flight :: nat
  threads :: "pc list"

datatype action = Call Message | Advance nat | Completed bool

text \<open>
  \<open>advance i\<close> lets thread \<open>i\<close> take its next step; it is \<open>None\<close> when there is no such
  thread or the thread has returned.
\<close>

definition advance :: "nat \<Rightarrow> ConcurrentSession \<Rightarrow> ConcurrentSession option" where
  "advance i s =
     (if length (threads s) \<le> i then None
      else case threads s ! i of
        Exchanged msg write_in_progress \<Rightarrow>
          Some (s\<lparr>write_msgs := write_msgs s @ [msg],
                  threads := (threads s)[i := Pushed write_in_progress]\<rparr>)
      | Pushed write_in_progress \<Rightarrow>
          Some (s\<lparr>threads := (threads s)[i := if \<not> write_in_progress then DoWrite else Done]\<rparr>)
      | DoWrite \<Rightarrow>
          (case write_msgs s of
             [] \<Rightarrow> Some (s\<lparr>writing := False, threads := (threads s)[i := Done]\<rparr>)
           | msg # rest \<Rightarrow>
               Some (s\<lparr>write_msgs := rest, threads := (threads s)[i := Popped msg]\<rparr>))
      | Popped msg \<Rightarrow>
          Some (s\<lparr>written := written s @ [msg], in_flight := in_flight s + 1,
                  threads := (threads s)[i := Done]\<rparr>)
      | Failed \<Rightarrow> Some (s\<lparr>writing := False, threads := (threads s)[i := Done]\<rparr>)
      | Done \<Rightarrow> None)"

fun fire :: "action \<Rightarrow> ConcurrentSession \<Rightarrow> ConcurrentSession option" where
  "fire (Call msg) s =
     Some (s\<lparr>writing := True, threads := threads s @ [Exchanged msg (writing s)]\<rparr>)"
| "fire (Advance i) s = advance i s"
| "fire (Completed ec) s =
     (if in_flight s = 0 then None
      else Some (s\<lparr>in_flight := in_flight s - 1,
                   threads := threads s @ [if \<not> ec then DoWrite else Failed]\<rparr>))"

fun run :: "action list \<Rightarrow> ConcurrentSession \<Rightarrow> ConcurrentSession option" where
  "run [] s = Some s"
| "run (a # as) s = (case fire a s of None \<Rightarrow> None | Some s' \<Rightarrow> run as s')"

definition ConcurrentSession_new :: "string \<Rightarrow> ConcurrentSession" where
  "ConcurrentSession_new uninit =
     ChatSession.extend (ChatSession_new uninit) \<lparr>in_flight = 0, threads = []\<rparr>"

text \<open>
  A thread is a writer from the moment its exchange has found the flag clear, or its
  handler has begun, until it has started its write or cleared the flag.
\<close>

fun writer :: "pc \<Rightarrow> nat" where
  "writer (Exchanged msg write_in_progress) = (if write_in_progress then 0 else 1)"
| "writer (Pushed write_in_progress) = (if write_in_progress then 0 else 1)"
| "writer DoWrite = 1"
| "writer (Popped msg) = 1"
| "writer Failed = 1"
| "writer Done = 0"

definition writers :: "ConcurrentSession \<Rightarrow> nat" where
  "writers s = in_flight s + sum_list (map writer (threads s))"

definition single_writer :: "ConcurrentSession \<Rightarrow> bool" where
  "single_writer s \<longleftrightarrow> writers s \<le> (if writing s then 1 else 0)"

text \<open>
  The threads that have taken a message from the queue and are about to call
  \<^verbatim>\<open>async_write\<close>.
\<close>

definition about_to_write :: "ConcurrentSession \<Rightarrow> nat" where
  "about_to_write s = length (filter (\<lambda>t. case t of Popped _ \<Rightarrow> True | _ \<Rightarrow> False) (threads s))"

section \<open>Properties of the codec\<close>

lemma isdigit_digit_char: "d < 10 \<Longrightarrow> isdigit (digit_char d)"
  by (simp add: isdigit_def digit_char_def)

lemma of_char_digit_char: "d < 10 \<Longrightarrow> (of_char (digit_char d) :: int) = 48 + int d"
proof -
  assume d: "d < 10"
  have "(of_char (digit_char d) :: nat) = 48 + d"
    using d by (simp add: digit_char_def)
  then have "int (of_char (digit_char d)) = int (48 + d)"
    by (rule arg_cong)
  then show ?thesis
    by (simp add: of_nat_of_char)
qed

lemma atoi_digits_append:
  "\<forall>c\<in>set ds. isdigit c \<Longrightarrow> atoi_digits acc (ds @ r) = atoi_digits (atoi_digits acc ds) r"
  by (induction ds arbitrary: acc) auto

lemma utoa_digits: "c \<in> set (utoa n) \<Longrightarrow> isdigit c"
proof (induction n rule: utoa.induct)
  case (1 n)
  then show ?case
    by (subst (asm) (2) utoa.simps) (auto simp: isdigit_digit_char split: if_splits)
qed

lemma utoa_not_Nil: "utoa n \<noteq> []"
  by (subst utoa.simps) simp

lemma atoi_digits_utoa: "atoi_digits 0 (utoa n) = int n"
proof (induction n rule: utoa.induct)
  case (1 n)
  show ?case
  proof (cases "10 \<le> n")
    case True
    have "atoi_digits 0 (utoa n) = atoi_digits 0 (utoa (n div 10) @ [digit_char (n mod 10)])"
      using True by (subst utoa.simps) simp
    also have "\<dots> = atoi_digits (int (n div 10)) [digit_char (n mod 10)]"
      using "1.IH" [OF True] by (simp add: atoi_digits_append utoa_digits)
    also have "\<dots> = 10 * int (n div 10) + int (n mod 10)"
      by (simp add: isdigit_digit_char of_char_digit_char)
    also have "\<dots> = int n"
      by presburger
    finally show ?thesis .
  next
    case False
    then show ?thesis
      by (subst utoa.simps) (simp add: isdigit_digit_char of_char_digit_char)
  qed
qed

lemma length_utoa: "0 < k \<Longrightarrow> n < 10 ^ k \<Longrightarrow> length (utoa n) \<le> k"
proof (induction n arbitrary: k rule: utoa.induct)
  case (1 n)
  show ?case
  proof (cases "10 \<le> n")
    case True
    from "1.prems" obtain j where k: "k = Suc j"
      by (cases k) auto
    have j: "0 < j"
    proof (rule ccontr)
      assume "\<not> 0 < j"
      with "1.prems" k have "n < 10" by simp
      with True show False by simp
    qed
    have "n div 10 < 10 ^ j"
      using "1.prems" k by (simp add: less_mult_imp_div_less mult.commute)
    from "1.IH" [OF True j this] show ?thesis
      using True k by (subst utoa.simps) simp
  next
    case False
    then show ?thesis
      using "1.prems" by (subst utoa.simps) simp
  qed
qed

lemma isdigit_not_space: "isdigit c \<Longrightarrow> \<not> isspace c"
  by (auto simp: isdigit_def isspace_def)

lemma isdigit_not_sign: "isdigit c \<Longrightarrow> c \<noteq> CHR ''-'' \<and> c \<noteq> CHR ''+''"
  by (auto simp: isdigit_def)

lemma isspace_space: "isspace CHR '' ''"
  by (simp add: isspace_def)

lemma dropWhile_pad:
  "\<not> isspace c \<Longrightarrow> dropWhile isspace (replicate k CHR '' '' @ c # cs) = c # cs"
  by (induction k) (simp_all add: isspace_space)

lemma atoi_pad_utoa: "atoi (replicate k CHR '' '' @ utoa n) = int n"
proof -
  obtain c cs where u: "utoa n = c # cs"
    using utoa_not_Nil [of n] by (cases "utoa n") auto
  have c: "isdigit c"
    using utoa_digits [of c n] u by simp
  have "dropWhile isspace (replicate k CHR '' '' @ utoa n) = utoa n"
    using isdigit_not_space [OF c] u by (simp add: dropWhile_pad)
  then show ?thesis
    using u c isdigit_not_sign [OF c] atoi_digits_utoa [of n] by (simp add: atoi_def)
qed

lemma sint_ucast_small:
  fixes w :: "64 word"
  assumes "unat w < 2 ^ 31"
  shows "sint (ucast w :: 32 word) = int (unat w)"
proof -
  have u: "uint w < 2 ^ 31" "0 \<le> uint w"
    using assms by (simp_all add: unat_eq_nat_uint nat_less_iff del: nat_uint_eq)
  have "uint (ucast w :: 32 word) = take_bit 32 (uint w)"
    by (simp add: unsigned_ucast_eq)
  also have "\<dots> = uint w"
    using u by (simp add: take_bit_int_eq_self)
  finally have "sint (ucast w :: 32 word) = signed_take_bit 31 (uint w)"
    by (simp add: sint_uint)
  also have "\<dots> = uint w"
  proof (rule signed_take_bit_int_eq_self)
    show "- (2 ^ 31) \<le> uint w"
      by (rule order_trans [of _ 0]) simp_all
    show "uint w < 2 ^ 31"
      using u by simp
  qed
  finally show ?thesis
    by simp
qed

lemma length_sprintf_4d: "n < 10000 \<Longrightarrow> length (sprintf_4d (int n)) = 4"
  using length_utoa [of 4 n] by (simp add: sprintf_4d_def itoa_def)

lemma sprintf_4d_nat: "sprintf_4d (int n) = replicate (4 - length (utoa n)) CHR '' '' @ utoa n"
  by (simp add: sprintf_4d_def itoa_def)

lemma isdigit_not_NUL: "isdigit c \<Longrightarrow> c \<noteq> CHR 0x00"
  by (auto simp: isdigit_def)

lemma space_not_NUL: "CHR '' '' \<noteq> CHR 0x00"
  by simp

lemma sprintf_4d_no_NUL: "c \<in> set (sprintf_4d (int n)) \<Longrightarrow> c \<noteq> CHR 0x00"
  by (auto simp: sprintf_4d_nat dest!: utoa_digits isdigit_not_NUL)

lemma strncat_no_NUL:
  "length h = n \<Longrightarrow> \<forall>c\<in>set h. c \<noteq> CHR 0x00 \<Longrightarrow> strncat (h @ r) n = h"
  by (simp add: strncat_def)

lemma encode_header_small:
  assumes "unat (body_length m) < 10000"
  shows "encode_header m =
    Some (m\<lparr>data := sprintf_4d (int (unat (body_length m))) @ drop HEADER_SIZE (data m)\<rparr>)"
proof -
  have "unat (body_length m) < 2 ^ 31"
    using assms by simp
  then have "sint (ucast (body_length m) :: 32 word) = int (unat (body_length m))"
    by (rule sint_ucast_small)
  then show ?thesis
    using length_sprintf_4d [OF assms]
    by (simp add: encode_header_def memcpy_def HEADER_SIZE_def Let_def)
qed

lemma atoi_sprintf_4d: "atoi (sprintf_4d (int n)) = int n"
  by (simp add: sprintf_4d_nat atoi_pad_utoa)

lemma decode_header_sprintf:
  assumes "n < 10000"
  shows "decode_header (m\<lparr>data := sprintf_4d (int n) @ r\<rparr>) =
    (n \<le> MAX_BODY_SIZE, m\<lparr>data := sprintf_4d (int n) @ r, body_length := word_of_nat n\<rparr>)"
proof -
  have h: "strncat (sprintf_4d (int n) @ r) HEADER_SIZE = sprintf_4d (int n)"
    using length_sprintf_4d [OF assms] sprintf_4d_no_NUL [of _ n]
    by (intro strncat_no_NUL) (auto simp: HEADER_SIZE_def)
  have "(word_of_nat n :: 64 word) \<le> word_of_nat MAX_BODY_SIZE \<longleftrightarrow> n \<le> MAX_BODY_SIZE"
    using assms by (simp add: word_le_nat_alt unat_of_nat MAX_BODY_SIZE_def)
  then show ?thesis
    by (simp add: decode_header_def h atoi_sprintf_4d Let_def)
qed

lemma encode_then_decode:
  assumes "unat (body_length m) \<le> MAX_BODY_SIZE"
  shows "\<exists>m'. encode_header m = Some m' \<and> decode_header m' = (True, m') \<and>
    body_length m' = body_length m \<and> body m' = body m"
proof -
  let ?n = "unat (body_length m)"
  let ?m' = "m\<lparr>data := sprintf_4d (int ?n) @ drop HEADER_SIZE (data m)\<rparr>"
  have n: "?n < 10000"
    using assms by (simp add: MAX_BODY_SIZE_def)
  have e: "encode_header m = Some ?m'"
    by (rule encode_header_small [OF n])
  have "decode_header ?m' = (?n \<le> MAX_BODY_SIZE, ?m'\<lparr>body_length := word_of_nat ?n\<rparr>)"
    using decode_header_sprintf [OF n, where m = m and r = "drop HEADER_SIZE (data m)"] by simp
  then have d: "decode_header ?m' = (True, ?m')"
    using assms by simp
  have "body ?m' = body m"
    using length_sprintf_4d [OF n] by (simp add: body_def HEADER_SIZE_def)
  with e d show ?thesis
    by simp
qed

lemma decode_header_of_header:
  assumes "n < 10000" and "take HEADER_SIZE (data r) = sprintf_4d (int n)"
  shows "decode_header r = (n \<le> MAX_BODY_SIZE, r\<lparr>body_length := word_of_nat n\<rparr>)"
proof -
  have "data r = sprintf_4d (int n) @ drop HEADER_SIZE (data r)"
    using assms(2) append_take_drop_id [of HEADER_SIZE "data r"] by simp
  then have r: "r = r\<lparr>data := sprintf_4d (int n) @ drop HEADER_SIZE (data r)\<rparr>"
    by simp
  have "decode_header (r\<lparr>data := sprintf_4d (int n) @ drop HEADER_SIZE (data r)\<rparr>) =
      (n \<le> MAX_BODY_SIZE,
       r\<lparr>data := sprintf_4d (int n) @ drop HEADER_SIZE (data r), body_length := word_of_nat n\<rparr>)"
    by (rule decode_header_sprintf [OF assms(1)])
  then show ?thesis
    using r by simp
qed

text \<open>
  Claim C1 (codec round trip). For every body of 0 to 512 bytes, the frame built from it
  (length set, body copied behind the header, \<^verbatim>\<open>encode_header\<close>) is defined.
  \<^verbatim>\<open>decode_header\<close> recovers the length of the body from the four header bytes alone:
  on any message object that holds these four bytes, whatever its other bytes and whatever
  length it held before, it returns true and stores exactly the length of the body. On the
  frame itself it therefore restores the frame, also after the length field has been
  overwritten, and the frame's body bytes are the original ones.
\<close>

theorem codec_round_trip:
  assumes "length uninit = HEADER_SIZE + MAX_BODY_SIZE" and "length b \<le> MAX_BODY_SIZE"
  shows "\<exists>m. compose_message uninit b = Some m \<and>
    (\<forall>r. take HEADER_SIZE (data r) = take HEADER_SIZE (data m) \<longrightarrow>
       decode_header r = (True, r\<lparr>body_length := word_of_nat (length b)\<rparr>)) \<and>
    (\<forall>x. decode_header (m\<lparr>body_length := x\<rparr>) = (True, m)) \<and>
    decode_header m = (True, m) \<and>
    unat (word_of_nat (length b) :: 64 word) = length b \<and>
    unat (body_length m) = length b \<and> body_string m = b"
proof -
  let ?n = "length b"
  let ?pre = "\<lparr>data = memcpy uninit HEADER_SIZE b ?n, body_length = word_of_nat ?n :: 64 word\<rparr>"
  let ?fr = "?pre\<lparr>data := sprintf_4d (int ?n) @ drop HEADER_SIZE (data ?pre)\<rparr>"
  have u: "unat (word_of_nat ?n :: 64 word) = ?n"
    using assms(2) by (simp add: unat_of_nat MAX_BODY_SIZE_def)
  have n: "?n < 10000"
    using assms(2) by (simp add: MAX_BODY_SIZE_def)
  have c: "compose_message uninit b = encode_header ?pre"
    using assms(2) u by (simp add: compose_message_def Message_new_def min_absorb1)
  have "unat (body_length ?pre) < 10000"
    using n u by simp
  from encode_header_small [OF this] have e: "compose_message uninit b = Some ?fr"
    using c u by simp
  have h: "take HEADER_SIZE (data ?fr) = sprintf_4d (int ?n)"
    using length_sprintf_4d [OF n] by (simp add: HEADER_SIZE_def)
  have d: "decode_header r = (True, r\<lparr>body_length := word_of_nat ?n\<rparr>)"
    if "take HEADER_SIZE (data r) = take HEADER_SIZE (data ?fr)" for r
    using decode_header_of_header [OF n, of r] that h assms(2) by simp
  have s: "decode_header (?fr\<lparr>body_length := x\<rparr>) = (True, ?fr)" for x
    using d [of "?fr\<lparr>body_length := x\<rparr>"] by simp
  have "body_string ?fr = take ?n (drop HEADER_SIZE (memcpy uninit HEADER_SIZE b ?n))"
    using u length_sprintf_4d [OF n] by (simp add: body_string_def body_def HEADER_SIZE_def)
  also have "\<dots> = b"
    using assms by (simp add: memcpy_def)
  finally have bs: "body_string ?fr = b" .
  have "(\<forall>r. take HEADER_SIZE (data r) = take HEADER_SIZE (data ?fr) \<longrightarrow>
       decode_header r = (True, r\<lparr>body_length := word_of_nat ?n\<rparr>)) \<and>
    (\<forall>x. decode_header (?fr\<lparr>body_length := x\<rparr>) = (True, ?fr)) \<and>
    decode_header ?fr = (True, ?fr) \<and>
    unat (word_of_nat ?n :: 64 word) = ?n \<and>
    unat (body_length ?fr) = ?n \<and> body_string ?fr = b"
    using d s [of "body_length ?fr"] s u bs by simp
  with e show ?thesis
    by blast
qed

theorem codec_round_trip_witness:
  "compose_message (replicate 516 CHR ''?'') ''hello'' =
     Some \<lparr>data = ''   5hello'' @ replicate 507 CHR ''?'', body_length = 5\<rparr> \<and>
   decode_header \<lparr>data = ''   5'' @ replicate 512 CHR ''!'', body_length = 77\<rparr> =
     (True, \<lparr>data = ''   5'' @ replicate 512 CHR ''!'', body_length = 5\<rparr>) \<and>
   body_string \<lparr>data = ''   5hello'' @ replicate 507 CHR ''?'', body_length = 5\<rparr> = ''hello''"
proof -
  let ?u = "replicate 516 CHR ''?''"
  let ?r = "\<lparr>data = ''   5'' @ replicate 512 CHR ''!'', body_length = 77 :: 64 word\<rparr>"
  have h1: "length ?u = HEADER_SIZE + MAX_BODY_SIZE"
    by (simp add: HEADER_SIZE_def MAX_BODY_SIZE_def)
  have h2: "length ''hello'' \<le> MAX_BODY_SIZE"
    by (simp add: MAX_BODY_SIZE_def)
  have c: "compose_message ?u ''hello'' =
      Some \<lparr>data = ''   5hello'' @ replicate 507 CHR ''?'', body_length = 5\<rparr>"
    by code_simp
  have t: "take HEADER_SIZE (data ?r) =
      take HEADER_SIZE (data \<lparr>data = ''   5hello'' @ replicate 507 CHR ''?'', body_length = 5 :: 64 word\<rparr>)"
    by (simp add: HEADER_SIZE_def)
  from codec_round_trip [OF h1 h2] c t show ?thesis
    by auto
qed

subsection \<open>The header format\<close>

lemma foldl_decimal_append:
  "foldl (\<lambda>a c. 10 * a + (of_char c - 48)) a (ds @ [c]) =
    10 * foldl (\<lambda>a c. 10 * a + (of_char c - 48)) a ds + (of_char c - (48::nat))"
  by simp

lemma decimal_value_utoa: "decimal_value (utoa n) = n"
proof (induction n rule: utoa.induct)
  case (1 n)
  have dc: "\<And>d. d < 10 \<Longrightarrow> (of_char (digit_char d) :: nat) = 48 + d"
    by (simp add: digit_char_def)
  show ?case
  proof (cases "10 \<le> n")
    case True
    have "decimal_value (utoa n) = decimal_value (utoa (n div 10) @ [digit_char (n mod 10)])"
      using True by (subst utoa.simps) simp
    also have "\<dots> = 10 * decimal_value (utoa (n div 10)) + n mod 10"
      by (simp add: decimal_value_def dc)
    also have "\<dots> = n"
      using "1.IH" [OF True] by simp
    finally show ?thesis .
  next
    case False
    then show ?thesis
      by (subst utoa.simps) (simp add: decimal_value_def dc)
  qed
qed

lemma hd_utoa: "0 < n \<Longrightarrow> hd (utoa n) \<noteq> CHR ''0''"
proof (induction n rule: utoa.induct)
  case (1 n)
  show ?case
  proof (cases "10 \<le> n")
    case True
    then have "0 < n div 10"
      by (simp add: div_greater_zero_iff)
    from "1.IH" [OF True this] show ?thesis
      using True utoa_not_Nil [of "n div 10"] by (subst utoa.simps) simp
  next
    case False
    have "digit_char n \<noteq> CHR ''0''"
      using False "1.prems" by (simp add: digit_char_def char_of_eq_iff take_bit_eq_mod)
    then show ?thesis
      using False by (subst utoa.simps) simp
  qed
qed

lemma utoa_0: "utoa 0 = ''0''"
  by (subst utoa.simps) (simp add: digit_char_def char_of_eq_iff take_bit_eq_mod)

lemma dropWhile_space_pad_utoa:
  "dropWhile (\<lambda>c. c = CHR '' '') (replicate k CHR '' '' @ utoa n) = utoa n"
proof -
  obtain c cs where u: "utoa n = c # cs"
    using utoa_not_Nil [of n] by (cases "utoa n") auto
  have "isdigit c"
    using utoa_digits [of c n] u by simp
  then have "c \<noteq> CHR '' ''"
    by (auto simp: isdigit_def)
  then show ?thesis
    using u by (induction k) simp_all
qed

lemma right_justified_sprintf_4d:
  assumes "n < 10000"
  shows "right_justified_decimal (sprintf_4d (int n)) n"
proof -
  have "list_all isdigit (utoa n)"
    using utoa_digits [of _ n] by (simp add: list_all_iff)
  moreover have "utoa n = ''0'' \<or> hd (utoa n) \<noteq> CHR ''0''"
    using hd_utoa [of n] utoa_0 by (cases "n = 0") simp_all
  ultimately show ?thesis
    using length_sprintf_4d [OF assms]
    by (simp add: right_justified_decimal_def padded_decimal_def sprintf_4d_nat
        dropWhile_space_pad_utoa utoa_not_Nil decimal_value_utoa del: replicate_eq_replicate)
qed

lemma frame_header_body:
  assumes "length h = HEADER_SIZE" and "unat (body_length m) \<le> MAX_BODY_SIZE"
  shows "frame (m\<lparr>data := h @ drop HEADER_SIZE (data m)\<rparr>) = h @ body_string m"
proof -
  have "unat (word_of_nat HEADER_SIZE + body_length m) = HEADER_SIZE + unat (body_length m)"
    using assms(2) by (simp add: unat_word_ariths HEADER_SIZE_def MAX_BODY_SIZE_def)
  then show ?thesis
    using assms(1) by (simp add: frame_def length_msg_def body_string_def body_def)
qed

text \<open>
  Claim C8 (header encoding format). For every message whose body length is between 0 and
  512, \<^verbatim>\<open>encode_header\<close> is defined and leaves in the first four bytes of \<open>data\<close> the
  decimal digits of the body length, right-justified behind spaces, with no sign and no
  leading zero; the bytes behind the header are the body bytes as they were, the body
  length is unchanged, and the frame sent on the wire is the header immediately followed by
  the body.
\<close>

theorem encode_header_format:
  assumes "unat (body_length m) \<le> MAX_BODY_SIZE"
  shows "\<exists>m'. encode_header m = Some m' \<and>
    length (take HEADER_SIZE (data m')) = HEADER_SIZE \<and>
    right_justified_decimal (take HEADER_SIZE (data m')) (unat (body_length m)) \<and>
    drop HEADER_SIZE (data m') = body m \<and> body_length m' = body_length m \<and>
    frame m' = take HEADER_SIZE (data m') @ body_string m"
proof -
  let ?n = "unat (body_length m)"
  have n: "?n < 10000"
    using assms by (simp add: MAX_BODY_SIZE_def)
  have l: "length (sprintf_4d (int ?n)) = HEADER_SIZE"
    using length_sprintf_4d [OF n] by (simp add: HEADER_SIZE_def)
  show ?thesis
    using encode_header_small [OF n] right_justified_sprintf_4d [OF n] l
      frame_header_body [OF l assms]
    by (simp add: body_def)
qed

theorem encode_header_format_witness:
  "unat (body_length \<lparr>data = replicate 516 CHR ''?'', body_length = 37\<rparr>) \<le> MAX_BODY_SIZE \<and>
   encode_header \<lparr>data = replicate 516 CHR ''?'', body_length = 37\<rparr> =
     Some \<lparr>data = ''  37'' @ replicate 512 CHR ''?'', body_length = 37\<rparr>"
proof -
  let ?m = "\<lparr>data = replicate 516 CHR ''?'', body_length = 37 :: 64 word\<rparr>"
  have h: "unat (body_length ?m) \<le> MAX_BODY_SIZE"
    by (simp add: MAX_BODY_SIZE_def)
  have e: "encode_header ?m = Some \<lparr>data = ''  37'' @ replicate 512 CHR ''?'', body_length = 37\<rparr>"
    by code_simp
  from encode_header_format [OF h] e h show ?thesis
    by (simp add: HEADER_SIZE_def)
qed

subsection \<open>Decoding headers\<close>

lemma atoi_digits_decimal:
  "list_all isdigit ds \<Longrightarrow>
    atoi_digits (int a) ds = int (foldl (\<lambda>a c. 10 * a + (of_char c - 48)) a ds)"
proof (induction ds arbitrary: a)
  case Nil
  show ?case by simp
next
  case (Cons c ds)
  then have c: "isdigit c" and ds: "list_all isdigit ds"
    by simp_all
  have "(48::nat) \<le> of_char c"
    using c by (simp add: isdigit_def)
  then have "10 * int a + (of_char c - 48) = int (10 * a + (of_char c - 48))"
    by (simp add: of_nat_of_char)
  then show ?case
    using c Cons.IH [OF ds, of "10 * a + (of_char c - 48)"] by simp
qed

lemma foldl_decimal_bound:
  "list_all isdigit ds \<Longrightarrow>
    foldl (\<lambda>a c. 10 * a + (of_char c - 48)) a ds < ((a::nat) + 1) * 10 ^ length ds"
proof (induction ds arbitrary: a)
  case Nil
  show ?case by simp
next
  case (Cons c ds)
  then have c: "isdigit c" and ds: "list_all isdigit ds"
    by simp_all
  have "of_char c - 48 \<le> (9::nat)"
    using c unfolding isdigit_def by arith
  then have "10 * a + (of_char c - 48) + 1 \<le> (a + 1) * 10"
    by simp
  then have "(10 * a + (of_char c - 48) + 1) * 10 ^ length ds \<le> (a + 1) * 10 * 10 ^ length ds"
    by (rule mult_le_mono1)
  with Cons.IH [OF ds, of "10 * a + (of_char c - 48)"]
  have "foldl (\<lambda>a c. 10 * a + (of_char c - 48)) (10 * a + (of_char c - 48)) ds
      < (a + 1) * 10 * 10 ^ length ds"
    by (rule less_le_trans)
  then show ?case
    by (simp add: algebra_simps)
qed

lemma atoi_padded_decimal:
  assumes "padded_decimal h n"
  shows "atoi h = int n" and "n < 10000" and "strncat (h @ r) HEADER_SIZE = h"
proof -
  let ?sp = "\<lambda>c. c = CHR '' ''"
  let ?ds = "dropWhile ?sp h"
  from assms have len: "length h = 4" and ne: "?ds \<noteq> []" and dig: "list_all isdigit ?ds"
    and val: "decimal_value ?ds = n"
    by (simp_all add: padded_decimal_def Let_def)
  have h: "h = takeWhile ?sp h @ ?ds"
    by simp
  obtain c cs where ds: "?ds = c # cs"
    using ne by (cases ?ds) auto
  have c: "isdigit c"
    using dig ds by simp
  have "dropWhile isspace h = dropWhile isspace (takeWhile ?sp h @ ?ds)"
    by simp
  also have "\<dots> = dropWhile isspace ?ds"
    by (rule dropWhile_append2) (auto dest!: set_takeWhileD simp: isspace_space)
  also have "\<dots> = ?ds"
    using c ds by (simp add: isdigit_not_space)
  finally have "atoi h = atoi_digits 0 ?ds"
    using ds c isdigit_not_sign [OF c] by (simp add: atoi_def)
  also have "\<dots> = int (decimal_value ?ds)"
    using atoi_digits_decimal [OF dig, of 0] by (simp add: decimal_value_def)
  finally show "atoi h = int n"
    using val by simp
  have "length ?ds \<le> 4"
    using len length_dropWhile_le [of ?sp h] by simp
  then have "(10::nat) ^ length ?ds \<le> 10 ^ 4"
    by (intro power_increasing) simp_all
  moreover have "decimal_value ?ds < 10 ^ length ?ds"
    using foldl_decimal_bound [OF dig, of 0] by (simp add: decimal_value_def)
  ultimately show "n < 10000"
    using val by simp
  have "\<forall>c\<in>set h. c \<noteq> CHR 0x00"
  proof
    fix x assume "x \<in> set h"
    moreover have "set h = set (takeWhile ?sp h) \<union> set ?ds"
      by (metis set_append takeWhile_dropWhile_id)
    ultimately have "x \<in> set (takeWhile ?sp h) \<or> x \<in> set ?ds"
      by simp
    then show "x \<noteq> CHR 0x00"
      using dig by (auto dest!: set_takeWhileD isdigit_not_NUL simp: list_all_iff)
  qed
  then show "strncat (h @ r) HEADER_SIZE = h"
    using len by (intro strncat_no_NUL) (simp_all add: HEADER_SIZE_def)
qed

text \<open>
  Claim C5 (decode boundary). On a frame whose first four bytes are a decimal number \<open>n\<close>
  padded with spaces on the left, \<^verbatim>\<open>decode_header\<close> stores \<open>n\<close> as the body length and
  returns true exactly when \<open>n\<close> is at most 512: 512 is accepted, 513 and everything above
  is rejected.
\<close>

theorem decode_header_boundary:
  assumes "padded_decimal (take HEADER_SIZE (data m)) n"
  shows "decode_header m = (n \<le> MAX_BODY_SIZE, m\<lparr>body_length := word_of_nat n\<rparr>) \<and>
    unat (word_of_nat n :: 64 word) = n"
proof -
  let ?h = "take HEADER_SIZE (data m)"
  have d: "data m = ?h @ drop HEADER_SIZE (data m)"
    by simp
  have "strncat (?h @ drop HEADER_SIZE (data m)) HEADER_SIZE = ?h"
    by (rule atoi_padded_decimal(3) [OF assms])
  then have s: "strncat (data m) HEADER_SIZE = ?h"
    by simp
  have n: "n < 10000"
    by (rule atoi_padded_decimal(2) [OF assms])
  have u: "unat (word_of_nat n :: 64 word) = n"
    using n by (simp add: unat_of_nat)
  have "(word_of_nat n :: 64 word) \<le> word_of_nat MAX_BODY_SIZE \<longleftrightarrow> n \<le> MAX_BODY_SIZE"
    using n by (simp add: word_le_nat_alt unat_of_nat MAX_BODY_SIZE_def)
  then show ?thesis
    using u by (simp add: decode_header_def s atoi_padded_decimal(1) [OF assms])
qed

theorem decode_header_boundary_witness:
  "padded_decimal (take HEADER_SIZE (data \<lparr>data = '' 512'' @ replicate 512 CHR ''?'', body_length = 0\<rparr>)) 512 \<and>
   decode_header \<lparr>data = '' 512'' @ replicate 512 CHR ''?'', body_length = 0\<rparr> =
     (True, \<lparr>data = '' 512'' @ replicate 512 CHR ''?'', body_length = 512\<rparr>) \<and>
   padded_decimal (take HEADER_SIZE (data \<lparr>data = '' 513'' @ replicate 512 CHR ''?'', body_length = 0\<rparr>)) 513 \<and>
   decode_header \<lparr>data = '' 513'' @ replicate 512 CHR ''?'', body_length = 0\<rparr> =
     (False, \<lparr>data = '' 513'' @ replicate 512 CHR ''?'', body_length = 513\<rparr>)"
proof -
  let ?a = "\<lparr>data = '' 512'' @ replicate 512 CHR ''?'', body_length = 0 :: 64 word\<rparr>"
  let ?b = "\<lparr>data = '' 513'' @ replicate 512 CHR ''?'', body_length = 0 :: 64 word\<rparr>"
  have a: "padded_decimal (take HEADER_SIZE (data ?a)) 512"
    by (simp add: padded_decimal_def HEADER_SIZE_def isdigit_def decimal_value_def)
  have b: "padded_decimal (take HEADER_SIZE (data ?b)) 513"
    by (simp add: padded_decimal_def HEADER_SIZE_def isdigit_def decimal_value_def)
  from decode_header_boundary [OF a] decode_header_boundary [OF b] a b show ?thesis
    by (simp add: MAX_BODY_SIZE_def)
qed

lemma atoi_digits_bound:
  "0 \<le> acc \<Longrightarrow> 0 \<le> atoi_digits acc cs \<and> atoi_digits acc cs < (acc + 1) * 10 ^ length cs"
proof (induction cs arbitrary: acc)
  case Nil
  then show ?case by simp
next
  case (Cons c cs)
  show ?case
  proof (cases "isdigit c")
    case True
    let ?d = "of_char c - (48::int)"
    have "int (of_char c) = of_char c"
      by (rule of_nat_of_char)
    then have d: "0 \<le> ?d" "?d \<le> 9"
      using True unfolding isdigit_def by linarith+
    let ?a = "10 * acc + ?d"
    have a: "0 \<le> ?a"
      using Cons.prems d by simp
    have e: "atoi_digits acc (c # cs) = atoi_digits ?a cs"
      using True by simp
    have le: "(?a + 1) * 10 ^ length cs \<le> ((acc + 1) * 10) * 10 ^ length cs"
      using d by (intro mult_right_mono) simp_all
    from Cons.IH [OF a] have 1: "0 \<le> atoi_digits ?a cs"
      and 2: "atoi_digits ?a cs < (?a + 1) * 10 ^ length cs"
      by blast+
    have "atoi_digits ?a cs < ((acc + 1) * 10) * 10 ^ length cs"
      using 2 le by (rule less_le_trans)
    then have 3: "atoi_digits ?a cs < (acc + 1) * 10 ^ length (c # cs)"
      by (simp add: algebra_simps)
    show ?thesis
      unfolding e using 1 3 by blast
  next
    case False
    have p: "(1::int) \<le> 10 ^ length (c # cs)"
      by (rule one_le_power) simp
    define X where "X = (acc + 1) * 10 ^ length (c # cs)"
    have "(acc + 1) * 1 \<le> X"
      unfolding X_def using p by (rule mult_left_mono) (use Cons.prems in simp)
    then have lt: "acc < X"
      by simp
    have e: "atoi_digits acc (c # cs) = acc"
      using False by simp
    show ?thesis
      unfolding e using Cons.prems lt unfolding X_def by blast
  qed
qed

lemma atoi_range:
  assumes "length s \<le> 4"
  shows "- 1000 < atoi s" and "atoi s < 10000"
proof -
  let ?r = "dropWhile isspace s"
  have len: "length ?r \<le> 4"
    using assms length_dropWhile_le [of isspace s] by simp
  have b: "\<And>cs. length cs \<le> k \<Longrightarrow> 0 \<le> atoi_digits 0 cs \<and> atoi_digits 0 cs < 10 ^ k" for k
  proof -
    fix cs :: string
    assume "length cs \<le> k"
    then have le: "(10::int) ^ length cs \<le> 10 ^ k"
      by (intro power_increasing) simp_all
    have "0 \<le> atoi_digits 0 cs" and lt: "atoi_digits 0 cs < 10 ^ length cs"
      using atoi_digits_bound [of 0 cs] by simp_all
    moreover have "atoi_digits 0 cs < 10 ^ k"
      using lt le by (rule less_le_trans)
    ultimately show "0 \<le> atoi_digits 0 cs \<and> atoi_digits 0 cs < 10 ^ k"
      by blast
  qed
  show "- 1000 < atoi s"
  proof (cases ?r)
    case Nil
    show ?thesis unfolding atoi_def Nil by simp
  next
    case (Cons c cs)
    then have "length cs \<le> 3"
      using len by simp
    from b [OF this] b [of ?r 4] len show ?thesis
      using Cons by (simp add: atoi_def)
  qed
  show "atoi s < 10000"
  proof (cases ?r)
    case Nil
    show ?thesis unfolding atoi_def Nil by simp
  next
    case (Cons c cs)
    then have "length cs \<le> 3"
      using len by simp
    from b [OF this] b [of ?r 4] len show ?thesis
      using Cons by (simp add: atoi_def)
  qed
qed

lemma length_strncat: "length (strncat d n) \<le> n"
proof -
  have "length (takeWhile (\<lambda>c. c \<noteq> CHR 0x00) (take n d)) \<le> length (take n d)"
    by (rule length_takeWhile_le)
  then show ?thesis
    by (simp add: strncat_def)
qed

text \<open>
  Claim C10 (negative headers). When \<^verbatim>\<open>atoi\<close> of the header is negative,
  \<^verbatim>\<open>decode_header\<close> returns false: the value converted to \<^verbatim>\<open>size_t\<close> is \<open>2 ^ 64\<close> plus the
  negative number, which is more than 512. Whenever \<^verbatim>\<open>decode_header\<close> returns true, the
  body length it has stored is at most 512.
\<close>

theorem decode_header_negative:
  "(atoi (strncat (data m) HEADER_SIZE) < 0 \<longrightarrow>
      \<not> fst (decode_header m) \<and>
      uint (body_length (snd (decode_header m))) = 2 ^ 64 + atoi (strncat (data m) HEADER_SIZE) \<and>
      MAX_BODY_SIZE < unat (body_length (snd (decode_header m)))) \<and>
   (fst (decode_header m') \<longrightarrow> unat (body_length (snd (decode_header m'))) \<le> MAX_BODY_SIZE)"
proof (intro conjI impI)
  let ?a = "atoi (strncat (data m) HEADER_SIZE)"
  have bl: "body_length (snd (decode_header m)) = word_of_int ?a"
    by (simp add: decode_header_def Let_def)
  have fs: "fst (decode_header m) \<longleftrightarrow> (word_of_int ?a :: 64 word) \<le> word_of_nat MAX_BODY_SIZE"
    by (simp add: decode_header_def Let_def)
  have m: "unat (word_of_nat MAX_BODY_SIZE :: 64 word) = MAX_BODY_SIZE"
    by (simp add: MAX_BODY_SIZE_def)
  show "unat (body_length (snd (decode_header m'))) \<le> MAX_BODY_SIZE" if "fst (decode_header m')"
    using that m by (simp add: decode_header_def Let_def word_le_nat_alt)
  assume neg: "?a < 0"
  have lo: "- 1000 < ?a"
    using length_strncat [of "data m" HEADER_SIZE] by (intro atoi_range) (simp add: HEADER_SIZE_def)
  have "uint (word_of_int ?a :: 64 word) = ?a mod 2 ^ 64"
    by (simp add: uint_word_of_int)
  also have "\<dots> = (2 ^ 64 + ?a) mod 2 ^ 64"
    by simp
  also have "\<dots> = 2 ^ 64 + ?a"
    using neg lo by (intro mod_pos_pos_trivial) simp_all
  finally have u: "uint (word_of_int ?a :: 64 word) = 2 ^ 64 + ?a" .
  then show "uint (body_length (snd (decode_header m))) = 2 ^ 64 + ?a"
    by (simp add: bl)
  have "int MAX_BODY_SIZE < uint (word_of_int ?a :: 64 word)"
    using u lo by (simp add: MAX_BODY_SIZE_def)
  then have "MAX_BODY_SIZE < nat (uint (word_of_int ?a :: 64 word))"
    by linarith
  then have big: "MAX_BODY_SIZE < unat (word_of_int ?a :: 64 word)"
    by simp
  then show "MAX_BODY_SIZE < unat (body_length (snd (decode_header m)))"
    by (simp add: bl)
  show "\<not> fst (decode_header m)"
    using big m unfolding fs by (simp add: word_le_nat_alt)
qed

theorem decode_header_negative_witness:
  "atoi (strncat (data \<lparr>data = ''  -1'' @ replicate 512 CHR ''?'', body_length = 0\<rparr>) HEADER_SIZE) < 0 \<and>
   \<not> fst (decode_header \<lparr>data = ''  -1'' @ replicate 512 CHR ''?'', body_length = 0\<rparr>) \<and>
   uint (body_length (snd (decode_header
     \<lparr>data = ''  -1'' @ replicate 512 CHR ''?'', body_length = 0\<rparr>))) = 2 ^ 64 - 1 \<and>
   fst (decode_header \<lparr>data = ''  12'' @ replicate 512 CHR ''?'', body_length = 0\<rparr>) \<and>
   unat (body_length (snd (decode_header
     \<lparr>data = ''  12'' @ replicate 512 CHR ''?'', body_length = 0\<rparr>))) \<le> MAX_BODY_SIZE"
proof -
  let ?a = "\<lparr>data = ''  -1'' @ replicate 512 CHR ''?'', body_length = 0 :: 64 word\<rparr>"
  let ?b = "\<lparr>data = ''  12'' @ replicate 512 CHR ''?'', body_length = 0 :: 64 word\<rparr>"
  have a: "atoi (strncat (data ?a) HEADER_SIZE) = - 1"
    by (simp add: strncat_def HEADER_SIZE_def atoi_def isspace_def isdigit_def)
  have b: "fst (decode_header ?b)"
    by (simp add: decode_header_def strncat_def HEADER_SIZE_def MAX_BODY_SIZE_def atoi_def
        isspace_def isdigit_def)
  from decode_header_negative [of ?a ?b] a b show ?thesis
    by simp
qed

lemma atoi_digits_no_digit: "list_all (\<lambda>c. \<not> isdigit c) cs \<Longrightarrow> atoi_digits acc cs = acc"
  by (cases cs) simp_all

lemma atoi_no_digit:
  assumes "list_all (\<lambda>c. \<not> isdigit c) s"
  shows "atoi s = 0"
proof (cases "dropWhile isspace s")
  case Nil
  show ?thesis unfolding atoi_def Nil by simp
next
  case (Cons c cs)
  have "set (dropWhile isspace s) \<subseteq> set s"
    by (auto dest: set_dropWhileD)
  then have "list_all (\<lambda>c. \<not> isdigit c) (c # cs)"
    using assms unfolding Cons by (auto simp: list_all_iff)
  then have "atoi_digits 0 (c # cs) = 0" and "atoi_digits 0 cs = 0"
    by (simp_all add: atoi_digits_no_digit)
  then show ?thesis
    unfolding atoi_def Cons by simp
qed

lemma strncat_prefix: "set (strncat d n) \<subseteq> set (take n d)"
  by (auto simp: strncat_def dest: set_takeWhileD)

lemma decode_header_no_digit:
  assumes "list_all (\<lambda>c. \<not> isdigit c) (take HEADER_SIZE (data m))"
  shows "decode_header m = (True, m\<lparr>body_length := 0\<rparr>)"
proof -
  have "list_all (\<lambda>c. \<not> isdigit c) (strncat (data m) HEADER_SIZE)"
    using assms strncat_prefix [of "data m" HEADER_SIZE] by (auto simp: list_all_iff)
  then have "atoi (strncat (data m) HEADER_SIZE) = 0"
    by (rule atoi_no_digit)
  then show ?thesis
    by (simp add: decode_header_def)
qed

text \<open>
  Claim C2 says that a header of bytes that are no number is reported as a failure. It is
  not: on the header \<^verbatim>\<open>abcd\<close>, \<^verbatim>\<open>atoi\<close> yields 0, and \<^verbatim>\<open>decode_header\<close> returns true with
  body length 0.
\<close>

theorem garbage_header_counterexample:
  "decode_header \<lparr>data = ''abcd'' @ replicate 512 CHR ''?'', body_length = 7\<rparr> =
     (True, \<lparr>data = ''abcd'' @ replicate 512 CHR ''?'', body_length = 0\<rparr>)"
  by (simp add: decode_header_def strncat_def HEADER_SIZE_def MAX_BODY_SIZE_def atoi_def
      isspace_def isdigit_def)

lemma sessions_session_update [simp]:
  "sessions (session_update p f sv) q = (if q = p then f (sessions sv p) else sessions sv q)"
  by (simp add: session_update_def)

lemma participants_session_update [simp]:
  "participants (session_update p f sv) = participants sv"
  by (simp add: session_update_def)

lemma recent_messages_session_update [simp]:
  "recent_messages (session_update p f sv) = recent_messages sv"
  by (simp add: session_update_def)

lemma word_of_int_le_MAX:
  assumes "- 1000 < a" and "a < 10000"
  shows "(word_of_int a :: 64 word) \<le> word_of_nat MAX_BODY_SIZE \<longleftrightarrow>
    0 \<le> a \<and> a \<le> int MAX_BODY_SIZE"
proof (cases "0 \<le> a")
  case True
  have "uint (word_of_int a :: 64 word) = a mod 2 ^ 64"
    by (simp add: uint_word_of_int)
  also have "\<dots> = a"
    using True assms(2) by (intro mod_pos_pos_trivial) simp_all
  finally have "uint (word_of_int a :: 64 word) = a" .
  moreover have "uint (word_of_nat MAX_BODY_SIZE :: 64 word) = int MAX_BODY_SIZE"
    by (simp add: MAX_BODY_SIZE_def)
  ultimately show ?thesis
    using True by (simp add: word_le_def)
next
  case False
  have "uint (word_of_int a :: 64 word) = a mod 2 ^ 64"
    by (simp add: uint_word_of_int)
  also have "\<dots> = (2 ^ 64 + a) mod 2 ^ 64"
    by simp
  also have "\<dots> = 2 ^ 64 + a"
    using False assms(1) by (intro mod_pos_pos_trivial) simp_all
  finally have "uint (word_of_int a :: 64 word) = 2 ^ 64 + a" .
  moreover have "uint (word_of_nat MAX_BODY_SIZE :: 64 word) = int MAX_BODY_SIZE"
    by (simp add: MAX_BODY_SIZE_def)
  ultimately show ?thesis
    using False assms(1) by (simp add: word_le_def MAX_BODY_SIZE_def)
qed

lemma decode_header_atoi:
  "decode_header m =
    (0 \<le> atoi (strncat (data m) HEADER_SIZE) \<and>
       atoi (strncat (data m) HEADER_SIZE) \<le> int MAX_BODY_SIZE,
     m\<lparr>body_length := word_of_int (atoi (strncat (data m) HEADER_SIZE))\<rparr>)"
proof -
  have "length (strncat (data m) HEADER_SIZE) \<le> 4"
    using length_strncat [of "data m" HEADER_SIZE] by (simp add: HEADER_SIZE_def)
  from atoi_range [OF this] show ?thesis
    by (simp add: decode_header_def Let_def word_of_int_le_MAX)
qed

lemma strncat_memcpy:
  "length bytes = HEADER_SIZE \<Longrightarrow>
    strncat (memcpy d 0 bytes HEADER_SIZE) HEADER_SIZE = strncat bytes HEADER_SIZE"
  by (simp add: memcpy_def strncat_def)

lemma strncat_received:
  "length bytes = HEADER_SIZE \<Longrightarrow>
    strncat (data (read_msg (received 0 bytes HEADER_SIZE s))) HEADER_SIZE =
      strncat bytes HEADER_SIZE"
  by (simp add: received_def memcpy_def strncat_def)

text \<open>
  Claim C2, as the code has it. \<^verbatim>\<open>decode_header\<close> has no result for a header that is no
  number: for every header it stores \<^verbatim>\<open>atoi\<close> of the header bytes, converted to \<^verbatim>\<open>size_t\<close>,
  and returns true exactly when \<^verbatim>\<open>atoi\<close> of them is between 0 and 512. The handler of the
  header read, given four bytes, removes the session from the room exactly when that
  number is outside 0 to 512, and otherwise starts reading a body of that length. When
  none of the four bytes is a decimal digit, \<^verbatim>\<open>atoi\<close> is 0: the header is accepted as
  declaring a body of length 0, and the session stays in the room and starts reading a
  body.
\<close>

theorem garbage_header_accepted:
  assumes "length bytes = HEADER_SIZE"
  shows "decode_header m =
      (0 \<le> atoi (strncat (data m) HEADER_SIZE) \<and>
         atoi (strncat (data m) HEADER_SIZE) \<le> int MAX_BODY_SIZE,
       m\<lparr>body_length := word_of_int (atoi (strncat (data m) HEADER_SIZE))\<rparr>) \<and>
    participants (on_read_header self False bytes sv) =
      (if 0 \<le> atoi (strncat bytes HEADER_SIZE) \<and>
          atoi (strncat bytes HEADER_SIZE) \<le> int MAX_BODY_SIZE
       then participants sv else set_erase self (participants sv)) \<and>
    awaiting (sessions (on_read_header self False bytes sv) self) =
      (if 0 \<le> atoi (strncat bytes HEADER_SIZE) \<and>
          atoi (strncat bytes HEADER_SIZE) \<le> int MAX_BODY_SIZE
       then Some Body else None) \<and>
    body_length (read_msg (sessions (on_read_header self False bytes sv) self)) =
      word_of_int (atoi (strncat bytes HEADER_SIZE)) \<and>
    (list_all (\<lambda>c. \<not> isdigit c) bytes \<longrightarrow>
      atoi (strncat bytes HEADER_SIZE) = 0 \<and>
      participants (on_read_header self False bytes sv) = participants sv \<and>
      awaiting (sessions (on_read_header self False bytes sv) self) = Some Body \<and>
      body_length (read_msg (sessions (on_read_header self False bytes sv) self)) = 0 \<and>
      (\<forall>m. take HEADER_SIZE (data m) = bytes \<longrightarrow>
         decode_header m = (True, m\<lparr>body_length := 0\<rparr>)))"
proof -
  let ?a = "atoi (strncat bytes HEADER_SIZE)"
  note h = on_read_header_def Let_def decode_header_atoi strncat_received [OF assms]
    strncat_memcpy [OF assms]
  have p: "participants (on_read_header self False bytes sv) =
      (if 0 \<le> ?a \<and> ?a \<le> int MAX_BODY_SIZE then participants sv
       else set_erase self (participants sv))"
    by (simp add: h ChatRoom_leave_def)
  have w: "awaiting (sessions (on_read_header self False bytes sv) self) =
      (if 0 \<le> ?a \<and> ?a \<le> int MAX_BODY_SIZE then Some Body else None)"
    by (simp add: h ChatRoom_leave_def do_read_body_def received_def)
  have b: "body_length (read_msg (sessions (on_read_header self False bytes sv) self)) =
      word_of_int ?a"
    by (simp add: h ChatRoom_leave_def do_read_body_def)
  have g: "?a = 0 \<and>
      (\<forall>m. take HEADER_SIZE (data m) = bytes \<longrightarrow> decode_header m = (True, m\<lparr>body_length := 0\<rparr>))"
    if nd: "list_all (\<lambda>c. \<not> isdigit c) bytes"
  proof
    have "set (strncat bytes HEADER_SIZE) \<subseteq> set bytes"
      using strncat_prefix [of bytes HEADER_SIZE] by (auto dest: in_set_takeD)
    then have "list_all (\<lambda>c. \<not> isdigit c) (strncat bytes HEADER_SIZE)"
      using nd by (auto simp: list_all_iff)
    then show "?a = 0"
      by (rule atoi_no_digit)
    show "\<forall>m. take HEADER_SIZE (data m) = bytes \<longrightarrow> decode_header m = (True, m\<lparr>body_length := 0\<rparr>)"
      using nd by (auto intro: decode_header_no_digit)
  qed
  show ?thesis
    using p w b g decode_header_atoi [of m] by simp
qed

theorem garbage_header_accepted_witness:
  "length ''abcd'' = HEADER_SIZE \<and> list_all (\<lambda>c. \<not> isdigit c) ''abcd'' \<and>
   participants (on_read_header 1 False ''abcd''
     \<lparr>participants = [1], recent_messages = [],
      sessions = \<lambda>_. ChatSession_new (replicate 516 CHR ''?'')\<rparr>) = [1] \<and>
   awaiting (sessions (on_read_header 1 False ''abcd''
     \<lparr>participants = [1], recent_messages = [],
      sessions = \<lambda>_. ChatSession_new (replicate 516 CHR ''?'')\<rparr>) 1) = Some Body \<and>
   body_length (read_msg (sessions (on_read_header 1 False ''abcd''
     \<lparr>participants = [1], recent_messages = [],
      sessions = \<lambda>_. ChatSession_new (replicate 516 CHR ''?'')\<rparr>) 1)) = 0 \<and>
   decode_header \<lparr>data = ''12ab'' @ replicate 512 CHR ''?'', body_length = 0\<rparr> =
     (True, \<lparr>data = ''12ab'' @ replicate 512 CHR ''?'', body_length = 12\<rparr>) \<and>
   decode_header \<lparr>data = ''999x'' @ replicate 512 CHR ''?'', body_length = 0\<rparr> =
     (False, \<lparr>data = ''999x'' @ replicate 512 CHR ''?'', body_length = 999\<rparr>) \<and>
   participants (on_read_header 1 False ''999x''
     \<lparr>participants = [1], recent_messages = [],
      sessions = \<lambda>_. ChatSession_new (replicate 516 CHR ''?'')\<rparr>) = []"
proof -
  let ?sv = "\<lparr>participants = [1], recent_messages = [],
      sessions = \<lambda>_::nat. ChatSession_new (replicate 516 CHR ''?'')\<rparr>"
  let ?p = "\<lparr>data = ''12ab'' @ replicate 512 CHR ''?'', body_length = 0 :: 64 word\<rparr>"
  let ?q = "\<lparr>data = ''999x'' @ replicate 512 CHR ''?'', body_length = 0 :: 64 word\<rparr>"
  have h1: "length ''abcd'' = HEADER_SIZE"
    by (simp add: HEADER_SIZE_def)
  have h1': "length ''999x'' = HEADER_SIZE"
    by (simp add: HEADER_SIZE_def)
  have h2: "list_all (\<lambda>c. \<not> isdigit c) ''abcd''"
    by (simp add: isdigit_def)
  have a: "atoi (strncat (data ?p) HEADER_SIZE) = 12"
    by (simp add: strncat_def HEADER_SIZE_def atoi_def isspace_def isdigit_def)
  have b: "atoi (strncat (data ?q) HEADER_SIZE) = 999"
    by (simp add: strncat_def HEADER_SIZE_def atoi_def isspace_def isdigit_def)
  have c: "atoi (strncat ''999x'' HEADER_SIZE) = 999"
    by (simp add: strncat_def HEADER_SIZE_def atoi_def isspace_def isdigit_def)
  from garbage_header_accepted [OF h1, of ?p 1 ?sv] garbage_header_accepted [OF h1', of ?q 1 ?sv]
    h1 h2 a b c
  show ?thesis
    by (simp add: MAX_BODY_SIZE_def set_erase_def)
qed

section \<open>Properties of the room\<close>

lemma participant_deliver_fields [simp]:
  "participants (participant_deliver p msg sv) = participants sv"
  "recent_messages (participant_deliver p msg sv) = recent_messages sv"
  "sessions (participant_deliver p msg sv) q =
     (if q = p then ChatSession_deliver msg (sessions sv p) else sessions sv q)"
  by (simp_all add: participant_deliver_def)

lemma fold_msgs_fields [simp]:
  "participants (fold (\<lambda>msg. participant_deliver p msg) msgs sv) = participants sv"
  "recent_messages (fold (\<lambda>msg. participant_deliver p msg) msgs sv) = recent_messages sv"
  by (induction msgs arbitrary: sv) simp_all

lemma fold_msgs_sessions:
  "sessions (fold (\<lambda>msg. participant_deliver p msg) msgs sv) q =
     (if q = p then fold ChatSession_deliver msgs (sessions sv p) else sessions sv q)"
  by (induction msgs arbitrary: sv) simp_all

lemma fold_participants_fields [simp]:
  "participants (fold (\<lambda>p. participant_deliver p msg) ps sv) = participants sv"
  "recent_messages (fold (\<lambda>p. participant_deliver p msg) ps sv) = recent_messages sv"
  by (induction ps arbitrary: sv) simp_all

lemma fold_participants_sessions:
  "distinct ps \<Longrightarrow>
    sessions (fold (\<lambda>p. participant_deliver p msg) ps sv) q =
      (if q \<in> set ps then ChatSession_deliver msg (sessions sv q) else sessions sv q)"
  by (induction ps arbitrary: sv) auto

lemma fold_participants_other:
  "q \<notin> set ps \<Longrightarrow> sessions (fold (\<lambda>p. participant_deliver p msg) ps sv) q = sessions sv q"
  by (induction ps arbitrary: sv) auto

lemma pop_excess_drop: "pop_excess q = drop (length q - MAX_RECENT_MSGS) q"
proof (induction q rule: pop_excess.induct)
  case (1 q)
  show ?case
  proof (cases "MAX_RECENT_MSGS < length q")
    case True
    then obtain x xs where q: "q = x # xs"
      by (cases q) auto
    have "pop_excess q = pop_excess (tl q)"
      using True by (subst pop_excess.simps) simp
    also have "\<dots> = drop (length (tl q) - MAX_RECENT_MSGS) (tl q)"
      using "1.IH" [OF True] .
    also have "\<dots> = drop (length q - MAX_RECENT_MSGS) q"
      using True q by (simp add: Suc_diff_le)
    finally show ?thesis .
  next
    case False
    then show ?thesis
      by (subst pop_excess.simps) simp
  qed
qed

lemma ChatRoom_deliver_fields [simp]:
  "participants (ChatRoom_deliver msg sv) = participants sv"
  "recent_messages (ChatRoom_deliver msg sv) = pop_excess (recent_messages sv @ [msg])"
  by (simp_all add: ChatRoom_deliver_def Let_def)

lemma ChatRoom_join_fields [simp]:
  "participants (ChatRoom_join visit p sv) = set_insert p (participants sv)"
  "recent_messages (ChatRoom_join visit p sv) = recent_messages sv"
  by (simp_all add: ChatRoom_join_def Let_def)

lemma ChatRoom_leave_fields [simp]:
  "participants (ChatRoom_leave p sv) = set_erase p (participants sv)"
  "recent_messages (ChatRoom_leave p sv) = recent_messages sv"
  "sessions (ChatRoom_leave p sv) = sessions sv"
  by (simp_all add: ChatRoom_leave_def)

lemma on_write_fields [simp]:
  "recent_messages (on_write p ec sv) = recent_messages sv"
  "participants (on_write p ec sv) = (if ec then set_erase p (participants sv) else participants sv)"
  by (simp_all add: on_write_def)

lemma recent_messages_apply_call:
  "recent_messages (apply_call visit c sv) =
     (case c of Deliver msg \<Rightarrow> pop_excess (recent_messages sv @ [msg]) | _ \<Rightarrow> recent_messages sv)"
  by (cases c) simp_all

lemma drop_last_append:
  "drop (length (drop (length xs - n) xs @ [x]) - n) (drop (length xs - n) xs @ [x]) =
     drop (length (xs @ [x]) - n) (xs @ [x])"
  by (cases "n \<le> length xs") (simp_all add: Suc_diff_le)

lemma recent_messages_run:
  "recent_messages sv = drop (length ms - MAX_RECENT_MSGS) ms \<Longrightarrow>
    recent_messages (fold (apply_call visit) cs sv) =
      drop (length (ms @ delivered cs) - MAX_RECENT_MSGS) (ms @ delivered cs)"
proof (induction cs arbitrary: sv ms)
  case Nil
  then show ?case by simp
next
  case (Cons c cs)
  show ?case
  proof (cases c)
    case (Deliver msg)
    have "recent_messages (apply_call visit c sv) =
        drop (length (ms @ [msg]) - MAX_RECENT_MSGS) (ms @ [msg])"
      using Cons.prems Deliver drop_last_append [of ms MAX_RECENT_MSGS msg]
      by (simp add: pop_excess_drop)
    from Cons.IH [OF this] show ?thesis
      using Deliver by simp
  qed (use Cons in simp_all)
qed

lemma fold_Deliver: "fold (apply_call visit) (map Deliver ms) sv = fold ChatRoom_deliver ms sv"
  by (induction ms arbitrary: sv) simp_all

lemma delivered_Deliver: "delivered (map Deliver ms) = ms"
  by (induction ms) simp_all

text \<open>
  Claim C3 (backlog bound). After any history of calls on a new room the backlog is the
  last 100 delivered messages in the order of the calls (all of them when there are fewer),
  so its length never exceeds 100, whatever a \<^verbatim>\<open>join\<close> replays; after more than 100 calls of
  \<^verbatim>\<open>deliver\<close> on any room it is exactly the last 100 of their messages; and delivering to a
  full backlog drops its oldest entry.
\<close>

theorem backlog_bound:
  "recent_messages (fold (apply_call visit) cs (ChatServer_new heap)) =
      drop (length (delivered cs) - 100) (delivered cs) \<and>
   length (recent_messages (fold (apply_call visit) cs (ChatServer_new heap))) \<le> 100 \<and>
   (100 < length msgs \<longrightarrow>
      recent_messages (fold ChatRoom_deliver msgs sv) = drop (length msgs - 100) msgs) \<and>
   (length (recent_messages sv') = 100 \<longrightarrow>
      recent_messages (ChatRoom_deliver msg sv') = tl (recent_messages sv') @ [msg])"
proof (intro conjI impI)
  have "recent_messages (ChatServer_new heap) = drop (length ([]::Message list) - MAX_RECENT_MSGS) []"
    by (simp add: ChatServer_new_def)
  from recent_messages_run [OF this, of visit cs]
  show run: "recent_messages (fold (apply_call visit) cs (ChatServer_new heap)) =
      drop (length (delivered cs) - 100) (delivered cs)"
    by (simp add: MAX_RECENT_MSGS_def)
  show "length (recent_messages (fold (apply_call visit) cs (ChatServer_new heap))) \<le> 100"
    unfolding run by simp
next
  assume n: "100 < length msgs"
  then obtain m ms where msgs: "msgs = m # ms"
    by (cases msgs) auto
  let ?r = "recent_messages sv @ [m]"
  have "recent_messages (ChatRoom_deliver m sv) = drop (length ?r - MAX_RECENT_MSGS) ?r"
    by (simp add: pop_excess_drop)
  from recent_messages_run [OF this, of visit "map Deliver ms"]
  have "recent_messages (fold ChatRoom_deliver msgs sv) =
      drop (length (recent_messages sv @ msgs) - 100) (recent_messages sv @ msgs)"
    by (simp add: msgs fold_Deliver [of visit] delivered_Deliver MAX_RECENT_MSGS_def)
  then show "recent_messages (fold ChatRoom_deliver msgs sv) = drop (length msgs - 100) msgs"
    using n by simp
next
  assume "length (recent_messages sv') = 100"
  then show "recent_messages (ChatRoom_deliver msg sv') = tl (recent_messages sv') @ [msg]"
    by (cases "recent_messages sv'") (simp_all add: pop_excess_drop MAX_RECENT_MSGS_def)
qed

theorem backlog_bound_witness:
  "100 < length (map (\<lambda>i. Message_new [char_of i]) [0..<103]) \<and>
   recent_messages (fold ChatRoom_deliver (map (\<lambda>i. Message_new [char_of i]) [0..<103])
     \<lparr>participants = [], recent_messages = [], sessions = \<lambda>_. ChatSession_new []\<rparr>) =
     map (\<lambda>i. Message_new [char_of i]) [3..<103] \<and>
   length (recent_messages
     \<lparr>participants = [], recent_messages = map (\<lambda>i. Message_new [char_of i]) [0..<100],
      sessions = \<lambda>_. ChatSession_new []\<rparr>) = 100 \<and>
   recent_messages (ChatRoom_deliver (Message_new [char_of (100::nat)])
     \<lparr>participants = [], recent_messages = map (\<lambda>i. Message_new [char_of i]) [0..<100],
      sessions = \<lambda>_. ChatSession_new []\<rparr>) = map (\<lambda>i. Message_new [char_of i]) [1..<101]"
proof -
  let ?f = "\<lambda>i::nat. Message_new [char_of i]"
  let ?sv = "\<lparr>participants = [], recent_messages = [], sessions = \<lambda>_. ChatSession_new []\<rparr>"
  let ?sv' = "\<lparr>participants = [], recent_messages = map ?f [0..<100],
    sessions = \<lambda>_. ChatSession_new []\<rparr>"
  have h1: "100 < length (map ?f [0..<103])"
    by simp
  have h2: "length (recent_messages ?sv') = 100"
    by simp
  have d: "drop 3 (map ?f [0..<103]) = map ?f [3..<103]"
    by (simp add: drop_map)
  have "tl (map ?f [0..<100]) = map ?f (tl [0..<100])"
    by (rule map_tl [symmetric])
  also have "tl [0..<100] = [1..<100]"
    by (simp add: tl_upt)
  finally have "tl (map ?f [0..<100]) @ [?f 100] = map ?f ([1..<100] @ [100])"
    by simp
  also have "[1..<100] @ [100] = [1..<101]"
    using upt_Suc_append [of 1 100] by simp
  finally have t: "tl (map ?f [0..<100]) @ [?f 100] = map ?f [1..<101]" .
  from backlog_bound [where cs = "[]" and heap = "\<lambda>_. ChatSession_new []" and msgs = "map ?f [0..<103]"
      and sv = ?sv and sv' = ?sv' and msg = "?f 100"]
    h1 h2 d t
  show ?thesis
    by simp
qed

text \<open>
  Claim C7 (leave is idempotent and removes nobody else). \<^verbatim>\<open>leave\<close> of a session that is
  not in the room changes nothing, so a second \<^verbatim>\<open>leave\<close> changes nothing; \<^verbatim>\<open>leave\<close> removes
  the session and keeps every other member, in place, and touches neither the session
  objects nor the backlog. \<^verbatim>\<open>leave\<close> has no failing case.
\<close>

theorem leave_idempotent:
  "(s \<notin> set (participants sv) \<longrightarrow> ChatRoom_leave s sv = sv) \<and>
   ChatRoom_leave s (ChatRoom_leave s sv) = ChatRoom_leave s sv \<and>
   set (participants (ChatRoom_leave s sv)) = set (participants sv) - {s} \<and>
   participants (ChatRoom_leave s sv) = filter (\<lambda>q. q \<noteq> s) (participants sv) \<and>
   sessions (ChatRoom_leave s sv) = sessions sv \<and>
   recent_messages (ChatRoom_leave s sv) = recent_messages sv"
proof (intro conjI impI)
  assume "s \<notin> set (participants sv)"
  then show "ChatRoom_leave s sv = sv"
    by (simp add: ChatRoom_leave_def set_erase_def)
next
  have "(\<lambda>q. q \<noteq> s) = (\<noteq>) s"
    by auto
  then show "participants (ChatRoom_leave s sv) = filter (\<lambda>q. q \<noteq> s) (participants sv)"
    by (simp add: ChatRoom_leave_def set_erase_def removeAll_filter_not_eq)
qed (simp_all add: ChatRoom_leave_def set_erase_def)

theorem leave_idempotent_witness:
  "2 \<notin> set (participants \<lparr>participants = [1, 3], recent_messages = [],
      sessions = \<lambda>_. ChatSession_new []\<rparr>) \<and>
   ChatRoom_leave 2 \<lparr>participants = [1, 3], recent_messages = [],
      sessions = \<lambda>_. ChatSession_new []\<rparr> =
     \<lparr>participants = [1, 3], recent_messages = [], sessions = \<lambda>_. ChatSession_new []\<rparr> \<and>
   participants (ChatRoom_leave 3 \<lparr>participants = [1, 3], recent_messages = [],
      sessions = \<lambda>_. ChatSession_new []\<rparr>) = [1] \<and>
   ChatRoom_leave 3 (ChatRoom_leave 3 \<lparr>participants = [1, 3], recent_messages = [],
      sessions = \<lambda>_. ChatSession_new []\<rparr>) =
     ChatRoom_leave 3 \<lparr>participants = [1, 3], recent_messages = [],
      sessions = \<lambda>_. ChatSession_new []\<rparr>"
proof -
  let ?sv = "\<lparr>participants = [1, 3], recent_messages = [], sessions = \<lambda>_. ChatSession_new []\<rparr>"
  have h: "2 \<notin> set (participants ?sv)"
    by simp
  from leave_idempotent [of 2 ?sv] leave_idempotent [of 3 ?sv] h show ?thesis
    by simp
qed

section \<open>The server-side transform\<close>

lemma compose_message_take:
  assumes "length uninit = HEADER_SIZE + MAX_BODY_SIZE"
  shows "\<exists>m. compose_message uninit t = Some m \<and> decode_header m = (True, m) \<and>
    unat (body_length m) = min (length t) MAX_BODY_SIZE \<and>
    body_string m = take MAX_BODY_SIZE t"
proof -
  let ?n = "min (length t) MAX_BODY_SIZE"
  let ?m0 = "\<lparr>data = memcpy uninit HEADER_SIZE t ?n, body_length = word_of_nat ?n :: 64 word\<rparr>"
  have u: "unat (word_of_nat ?n :: 64 word) = ?n"
    by (simp add: unat_of_nat MAX_BODY_SIZE_def)
  have c: "compose_message uninit t = encode_header ?m0"
    using u by (simp add: compose_message_def Message_new_def)
  have "unat (body_length ?m0) \<le> MAX_BODY_SIZE"
    using u by simp
  from encode_then_decode [OF this] obtain m' where m':
    "encode_header ?m0 = Some m'" "decode_header m' = (True, m')"
    "body_length m' = body_length ?m0" "body m' = body ?m0"
    by blast
  have "body_string m' = take ?n (body ?m0)"
    using m'(3,4) u by (simp add: body_string_def)
  also have "\<dots> = take ?n (take ?n t)"
    using assms by (simp add: body_def memcpy_def)
  also have "\<dots> = take MAX_BODY_SIZE t"
    by (simp add: min_def)
  finally show ?thesis
    using c m' u by simp
qed

lemma last_pop_excess: "last (pop_excess (q @ [msg])) = msg"
  by (simp add: pop_excess_drop MAX_RECENT_MSGS_def)

text \<open>
  Claim C6 (server transform). When the body of an inbound message has been read without
  error, the handler builds a message whose body is \<^verbatim>\<open>[\<close>, the time stamp, \<^verbatim>\<open>] Client: \<close>
  and the bytes received, cut to 512 bytes, with a header that decodes to its length, and
  passes it to \<^verbatim>\<open>ChatRoom::deliver\<close>, so that it is the newest entry of the backlog.
\<close>

theorem server_transform:
  assumes "length uninit = HEADER_SIZE + MAX_BODY_SIZE"
    and "wf_Message (read_msg (sessions sv self))"
    and "length bytes = unat (body_length (read_msg (sessions sv self)))"
  shows "\<exists>response.
    on_read_body self False bytes ctime_now uninit sv =
      Some (session_update self do_read_header
        (ChatRoom_deliver response
          (session_update self (received HEADER_SIZE bytes (length bytes)) sv))) \<and>
    body_string response =
      take MAX_BODY_SIZE (''['' @ butlast ctime_now @ ''] Client: '' @ bytes) \<and>
    decode_header response = (True, response) \<and>
    last (recent_messages (the (on_read_body self False bytes ctime_now uninit sv))) = response"
proof -
  let ?s = "sessions sv self"
  let ?n = "unat (body_length (read_msg ?s))"
  let ?sv = "session_update self (received HEADER_SIZE bytes ?n) sv"
  have "body_string (read_msg (sessions ?sv self)) = bytes"
    using assms(2,3)
    by (simp add: received_def body_string_def body_def memcpy_def wf_Message_def)
  then have f: "''['' @ butlast ctime_now @ ''] Client: '' @ body_string (read_msg (sessions ?sv self))
      = ''['' @ butlast ctime_now @ ''] Client: '' @ bytes"
    by simp
  from compose_message_take [OF assms(1), of "''['' @ butlast ctime_now @ ''] Client: '' @ bytes"]
  obtain r where r: "compose_message uninit (''['' @ butlast ctime_now @ ''] Client: '' @ bytes) = Some r"
    "decode_header r = (True, r)"
    "body_string r = take MAX_BODY_SIZE (''['' @ butlast ctime_now @ ''] Client: '' @ bytes)"
    by blast
  have "on_read_body self False bytes ctime_now uninit sv =
      Some (session_update self do_read_header (ChatRoom_deliver r ?sv))"
    unfolding on_read_body_def Let_def f using r(1) by simp
  then show ?thesis
    using r(2,3) assms(3) by (auto simp: last_pop_excess)
qed

theorem server_transform_witness:
  "length (replicate 516 CHR ''?'') = HEADER_SIZE + MAX_BODY_SIZE \<and>
   wf_Message \<lparr>data = ''   5'' @ replicate 512 CHR ''?'', body_length = 5\<rparr> \<and>
   (\<exists>response.
      body_string response = ''[Tue Nov  3 10:00:00 2026] Client: hello'' \<and>
      decode_header response = (True, response) \<and>
      last (recent_messages (the (on_read_body 1 False ''hello''
        (''Tue Nov  3 10:00:00 2026'' @ [CHR 0x0A]) (replicate 516 CHR ''?'')
        \<lparr>participants = [1], recent_messages = [],
         sessions = \<lambda>_. (ChatSession_new (replicate 516 CHR ''?''))
           \<lparr>read_msg := \<lparr>data = ''   5'' @ replicate 512 CHR ''?'', body_length = 5\<rparr>\<rparr>\<rparr>)))
        = response)"
proof -
  let ?u = "replicate 516 CHR ''?''"
  let ?sv = "\<lparr>participants = [1], recent_messages = [],
    sessions = \<lambda>_::nat. (ChatSession_new ?u)
      \<lparr>read_msg := \<lparr>data = ''   5'' @ replicate 512 CHR ''?'', body_length = 5\<rparr>\<rparr>\<rparr>"
  have h1: "length ?u = HEADER_SIZE + MAX_BODY_SIZE"
    by (simp add: HEADER_SIZE_def MAX_BODY_SIZE_def)
  have h2: "wf_Message (read_msg (sessions ?sv 1))"
    by (simp add: wf_Message_def HEADER_SIZE_def MAX_BODY_SIZE_def)
  have h3: "length ''hello'' = unat (body_length (read_msg (sessions ?sv 1)))"
    by simp
  from server_transform [OF h1 h2 h3, of "''Tue Nov  3 10:00:00 2026'' @ [CHR 0x0A]"] h1 h2
  show ?thesis
    by (auto simp: MAX_BODY_SIZE_def)
qed

section \<open>At most one write in flight\<close>

lemma sum_list_update:
  "i < length xs \<Longrightarrow>
    sum_list (map f (xs[i := y])) + f (xs ! i) = sum_list (map f xs) + (f y :: nat)"
proof (induction xs arbitrary: i)
  case Nil
  then show ?case by simp
next
  case (Cons x xs)
  then show ?case
    by (cases i) (simp_all add: add.assoc add.left_commute)
qed

lemma writers_update:
  assumes "i < length (threads s)" and "threads s' = (threads s)[i := y]"
    and "in_flight s' = in_flight s + k"
  shows "writers s' + writer (threads s ! i) = writers s + writer y + k"
  using sum_list_update [OF assms(1), of writer y] assms(2,3) by (simp add: writers_def)

lemma single_writer_advance:
  assumes "single_writer s" and "advance i s = Some s'"
  shows "single_writer s'"
proof -
  from assms(2) have i: "i < length (threads s)"
    by (auto simp: advance_def split: if_splits)
  from assms(1) have w: "writers s \<le> (if writing s then 1 else 0)"
    by (simp add: single_writer_def)
  show ?thesis
  proof (cases "threads s ! i")
    case (Exchanged msg b)
    then have s': "s' = s\<lparr>write_msgs := write_msgs s @ [msg], threads := (threads s)[i := Pushed b]\<rparr>"
      using assms(2) i by (simp add: advance_def)
    have "writers s' + writer (threads s ! i) = writers s + writer (Pushed b) + 0"
      by (rule writers_update [OF i]) (simp_all add: s')
    then have "writers s' = writers s"
      using Exchanged by simp
    then show ?thesis
      using w by (simp add: single_writer_def s')
  next
    case (Pushed b)
    let ?y = "if \<not> b then DoWrite else Done"
    from Pushed have s': "s' = s\<lparr>threads := (threads s)[i := ?y]\<rparr>"
      using assms(2) i by (simp add: advance_def)
    have "writers s' + writer (threads s ! i) = writers s + writer ?y + 0"
      by (rule writers_update [OF i]) (simp_all add: s')
    then have "writers s' = writers s"
      using Pushed by (cases b) simp_all
    then show ?thesis
      using w by (simp add: single_writer_def s')
  next
    case DoWrite
    show ?thesis
    proof (cases "write_msgs s")
      case Nil
      then have s': "s' = s\<lparr>writing := False, threads := (threads s)[i := Done]\<rparr>"
        using assms(2) i DoWrite by (simp add: advance_def)
      have "writers s' + writer (threads s ! i) = writers s + writer Done + 0"
        by (rule writers_update [OF i]) (simp_all add: s')
      then have "writers s' + 1 = writers s"
        using DoWrite by simp
      then show ?thesis
        using w by (simp add: single_writer_def s' split: if_splits)
    next
      case (Cons msg rest)
      then have s': "s' = s\<lparr>write_msgs := rest, threads := (threads s)[i := Popped msg]\<rparr>"
        using assms(2) i DoWrite by (simp add: advance_def)
      have "writers s' + writer (threads s ! i) = writers s + writer (Popped msg) + 0"
        by (rule writers_update [OF i]) (simp_all add: s')
      then have "writers s' = writers s"
        using DoWrite by simp
      then show ?thesis
        using w by (simp add: single_writer_def s')
    qed
  next
    case (Popped msg)
    then have s': "s' = s\<lparr>written := written s @ [msg], in_flight := in_flight s + 1,
        threads := (threads s)[i := Done]\<rparr>"
      using assms(2) i by (simp add: advance_def)
    have "writers s' + writer (threads s ! i) = writers s + writer Done + 1"
      by (rule writers_update [OF i]) (simp_all add: s')
    then have "writers s' = writers s"
      using Popped by simp
    then show ?thesis
      using w by (simp add: single_writer_def s')
  next
    case Failed
    then have s': "s' = s\<lparr>writing := False, threads := (threads s)[i := Done]\<rparr>"
      using assms(2) i by (simp add: advance_def)
    have "writers s' + writer (threads s ! i) = writers s + writer Done + 0"
      by (rule writers_update [OF i]) (simp_all add: s')
    then have "writers s' + 1 = writers s"
      using Failed by simp
    then show ?thesis
      using w by (simp add: single_writer_def s' split: if_splits)
  next
    case Done
    with assms(2) i show ?thesis
      by (simp add: advance_def)
  qed
qed

lemma single_writer_fire:
  assumes "single_writer s" and "fire a s = Some s'"
  shows "single_writer s'"
proof (cases a)
  case (Call msg)
  then have s': "s' = s\<lparr>writing := True, threads := threads s @ [Exchanged msg (writing s)]\<rparr>"
    using assms(2) by simp
  have "writers s' = writers s + writer (Exchanged msg (writing s))"
    by (simp add: writers_def s')
  then show ?thesis
    using assms(1) by (simp add: single_writer_def s' split: if_splits)
next
  case (Advance i)
  with assms show ?thesis
    by (auto intro: single_writer_advance)
next
  case (Completed ec)
  let ?y = "if \<not> ec then DoWrite else Failed"
  from Completed have f: "0 < in_flight s"
    and s': "s' = s\<lparr>in_flight := in_flight s - 1, threads := threads s @ [?y]\<rparr>"
    using assms(2) by (simp_all split: if_splits)
  have "writer ?y = 1"
    by simp
  then have "writers s' = writers s"
    using f by (simp add: writers_def s')
  then show ?thesis
    using assms(1) by (simp add: single_writer_def s')
qed

lemma single_writer_run:
  "single_writer s \<Longrightarrow> run as s = Some s' \<Longrightarrow> single_writer s'"
proof (induction as arbitrary: s)
  case Nil
  then show ?case by simp
next
  case (Cons a as)
  then show ?case
    by (auto split: option.splits dest: single_writer_fire)
qed

lemma single_writer_new: "single_writer (ConcurrentSession_new uninit)"
  by (simp add: single_writer_def writers_def ConcurrentSession_new_def ChatSession_new_def
      ChatSession.extend_def)

lemma about_to_write_le: "length (filter (\<lambda>t. case t of Popped _ \<Rightarrow> True | _ \<Rightarrow> False) ts) \<le> sum_list (map writer ts)"
  by (induction ts) (auto split: pc.splits)

text \<open>
  Claim C9 (single writer). In every state that an interleaving of \<^verbatim>\<open>deliver\<close> calls,
  \<^verbatim>\<open>do_write\<close> steps and write completions can reach from a new session, the writes in
  flight together with the threads about to start one are at most one, and the flag is
  set whenever there is one.
\<close>

theorem single_writer_queue:
  assumes "run as (ConcurrentSession_new uninit) = Some s"
  shows "in_flight s + about_to_write s \<le> 1 \<and> (0 < in_flight s + about_to_write s \<longrightarrow> writing s)"
proof -
  have "single_writer s"
    using single_writer_new assms by (rule single_writer_run)
  moreover have "in_flight s + about_to_write s \<le> writers s"
    using about_to_write_le [of "threads s"] by (simp add: writers_def about_to_write_def)
  ultimately show ?thesis
    by (auto simp: single_writer_def split: if_splits)
qed

theorem single_writer_queue_witness:
  "run [Call (Message_new ''a''), Call (Message_new ''b''), Advance 0, Advance 1, Advance 0,
      Advance 1, Advance 0, Advance 0] (ConcurrentSession_new []) \<noteq> None \<and>
   in_flight (the (run [Call (Message_new ''a''), Call (Message_new ''b''), Advance 0, Advance 1,
      Advance 0, Advance 1, Advance 0, Advance 0] (ConcurrentSession_new []))) = 1 \<and>
   write_msgs (the (run [Call (Message_new ''a''), Call (Message_new ''b''), Advance 0, Advance 1,
      Advance 0, Advance 1, Advance 0, Advance 0] (ConcurrentSession_new []))) = [Message_new ''b''] \<and>
   writing (the (run [Call (Message_new ''a''), Call (Message_new ''b''), Advance 0, Advance 1,
      Advance 0, Advance 1, Advance 0, Advance 0] (ConcurrentSession_new [])))"
proof -
  let ?as = "[Call (Message_new ''a''), Call (Message_new ''b''), Advance 0, Advance 1, Advance 0,
      Advance 1, Advance 0, Advance 0]"
  obtain s where s: "run ?as (ConcurrentSession_new []) = Some s"
    "in_flight s = 1" "write_msgs s = [Message_new ''b'']"
    by (simp add: ConcurrentSession_new_def ChatSession_new_def ChatSession.extend_def advance_def)
  from single_writer_queue [OF s(1)] s show ?thesis
    by simp
qed

end
